(* ===== verification/Prelude.thy ===== *)
theory Prelude
  imports Main "HOL-Library.AList"
begin

text \<open>
  Shared vocabulary of the InjectTemplate development (src/InjectTemplate.js).
  JavaScript strings are modelled as \<^typ>\<open>string\<close> (lists of 8-bit code units;
  code units above 0xFF are outside the model).  The JavaScript values the plugin
  handles are \<open>undefined\<close> and strings (\<open>jsval\<close>); a settled promise of
  the data source is a \<open>fetch_result\<close>.  The prefix test \<open>starts_with\<close> is the
  building block of the regular-expression and \<open>String.prototype.replace\<close>
  models; its lemmas are collected in \<open>str_simps\<close>.
\<close>

named_theorems str_simps "rewrite rules for prefixes and occurrences of strings"
named_theorems engine_defs "definitions unfolded by the engine proofs"

type_synonym name = string
type_synonym key = string

text \<open>The members a plain object \<open>{}\<close> inherits from \<open>Object.prototype\<close>
  that are functions; \<open>__proto__\<close> is the remaining inherited member, an
  accessor whose getter returns \<open>Object.prototype\<close> itself.\<close>

datatype builtin =
    ObjectCtor | ObjToString | ObjToLocaleString | ObjValueOf | ObjHasOwnProperty
  | ObjIsPrototypeOf | ObjPropertyIsEnumerable
  | ObjDefineGetter | ObjDefineSetter | ObjLookupGetter | ObjLookupSetter

text \<open>The JavaScript values the plugin meets: \<open>undefined\<close>, strings, the inherited
  built-in functions and the object \<open>Object.prototype\<close>.\<close>

datatype jsval = Undefined | Str string | Builtin builtin | ObjectPrototype

fun builtin_name :: "builtin \<Rightarrow> string" where
  "builtin_name ObjectCtor = ''Object''"
| "builtin_name ObjToString = ''toString''"
| "builtin_name ObjToLocaleString = ''toLocaleString''"
| "builtin_name ObjValueOf = ''valueOf''"
| "builtin_name ObjHasOwnProperty = ''hasOwnProperty''"
| "builtin_name ObjIsPrototypeOf = ''isPrototypeOf''"
| "builtin_name ObjPropertyIsEnumerable = ''propertyIsEnumerable''"
| "builtin_name ObjDefineGetter = ''__defineGetter__''"
| "builtin_name ObjDefineSetter = ''__defineSetter__''"
| "builtin_name ObjLookupGetter = ''__lookupGetter__''"
| "builtin_name ObjLookupSetter = ''__lookupSetter__''"

datatype fetch_result = Resolved jsval | Rejected

type_synonym datasource = "name \<Rightarrow> fetch_result"

text \<open>JavaScript truthiness of a cache entry (\<open>cache[name] ? .. : ..\<close> and
  \<open>!cache[name]\<close>): \<open>undefined\<close> and the empty string are falsy.\<close>

fun js_truthy :: "jsval \<Rightarrow> bool" where
  "js_truthy Undefined = False"
| "js_truthy (Str s) = (s \<noteq> [])"
| "js_truthy (Builtin f) = True"
| "js_truthy ObjectPrototype = True"

text \<open>\<open>ToString\<close> applied by \<open>String.prototype.replace\<close> to a replacement
  value that is not a function: \<open>Object.prototype\<close> converts through its own
  \<open>toString\<close>.  Functions never reach it (they are called instead).\<close>

fun js_to_string :: "jsval \<Rightarrow> string" where
  "js_to_string Undefined = ''undefined''"
| "js_to_string (Str s) = s"
| "js_to_string (Builtin f) = ''function '' @ builtin_name f @ ''() { [native code] }''"
| "js_to_string ObjectPrototype = ''[object Object]''"

text \<open>A \<open>TypeError\<close> thrown by a built-in function.\<close>

datatype js_error = TypeError

fun starts_with :: "'a list \<Rightarrow> 'a list \<Rightarrow> bool" where
  "starts_with xs [] = True"
| "starts_with [] (p # ps) = False"
| "starts_with (x # xs) (p # ps) = (x = p \<and> starts_with xs ps)"

lemma starts_with_iff: "starts_with xs p \<longleftrightarrow> (\<exists>r. xs = p @ r)"
  by (induction xs p rule: starts_with.induct) auto

lemma starts_with_append [simp, str_simps]: "starts_with (p @ r) p"
  by (simp add: starts_with_iff)

lemma starts_with_take: "starts_with xs p \<longleftrightarrow> take (length p) xs = p"
  by (induction xs p rule: starts_with.induct) auto

lemma starts_with_append_pat [str_simps]:
  "starts_with xs (p @ q) \<longleftrightarrow> starts_with xs p \<and> starts_with (drop (length p) xs) q"
  by (induction xs p rule: starts_with.induct) auto

lemma starts_with_takeWhile_length:
  "\<forall>c \<in> set p. P c \<Longrightarrow> starts_with xs p \<Longrightarrow> length p \<le> length (takeWhile P xs)"
  by (induction xs p rule: starts_with.induct) auto

lemma starts_with_length: "starts_with xs p \<Longrightarrow> length p \<le> length xs"
  by (auto simp: starts_with_iff)

lemma starts_with_drop: "starts_with xs p \<Longrightarrow> xs = p @ drop (length p) xs"
  by (auto simp: starts_with_iff)

end
