(* ===== verification/Marker.thy ===== *)
theory Marker
  imports Prelude
begin

text \<open>
  The marker scanner of \<open>replaceAssets\<close> (src/InjectTemplate.js, line 63):
  \<open>target.matchAll(/<!-- replace="(\S*?)" -->/g)\<close>.  The regular expression is
  translated into a backtracking matcher: \<open>match_at\<close> tries the pattern at the
  head of a string, \<open>lazy_name\<close> is the lazy group \<open>(\S*?)\<close> followed by the
  rest of the pattern, and \<open>match_all\<close> is the global scan of \<open>matchAll\<close>
  (leftmost match, resume at its end, else advance one code unit).  \<open>pieces\<close>
  cuts a string into literal code units and markers along the same scan; it is
  the segmentation the substitution is specified against.
\<close>

text \<open>\<open>\s\<close> of JavaScript regular expressions restricted to the 8-bit code
  units: tab, line feed, vertical tab, form feed, carriage return, space and
  no-break space.\<close>

definition js_space :: "char \<Rightarrow> bool" where
  "js_space c \<longleftrightarrow>
     c \<in> {CHR 0x09, CHR 0x0A, CHR 0x0B, CHR 0x0C, CHR 0x0D, CHR 0x20, CHR 0xA0}"

definition marker_open :: string where
  \<open>marker_open = ''<!-- replace="''\<close>

definition marker_close :: string where
  \<open>marker_close = ''" -->''\<close>

text \<open>The text matched for the name \<open>n\<close>: \<open>item[0]\<close> of a match.\<close>

definition marker_tag :: "name \<Rightarrow> string" where
  "marker_tag n = marker_open @ n @ marker_close"

text \<open>\<open>(\S*?)" -->\<close>: the lazy quantifier first tries the continuation
  \<open>" -->\<close>, and only when it fails consumes one more non-space code unit.\<close>

fun lazy_name :: "string \<Rightarrow> name option" where
  "lazy_name [] = (if starts_with [] marker_close then Some [] else None)"
| "lazy_name (c # cs) =
     (if starts_with (c # cs) marker_close then Some []
      else if js_space c then None
      else map_option (Cons c) (lazy_name cs))"

definition match_at :: "string \<Rightarrow> name option" where
  "match_at s =
     (if starts_with s marker_open then lazy_name (drop (length marker_open) s) else None)"

text \<open>\<open>matchAll\<close> with the global flag: a match at the current position yields
  \<open>[tag, name]\<close> and the scan resumes after the match; otherwise the scan
  advances by one code unit.  No match is empty, so the scan ends.\<close>

function match_all :: "string \<Rightarrow> (string \<times> name) list" where
  "match_all s =
     (case s of
        [] \<Rightarrow> []
      | c # cs \<Rightarrow>
          (case match_at s of
             Some n \<Rightarrow> (marker_tag n, n) # match_all (drop (length (marker_tag n)) s)
           | None \<Rightarrow> match_all cs))"
  by pat_completeness auto
termination
  by (relation "measure length") (auto simp: marker_tag_def marker_open_def)

datatype piece = Lit char | Mark name

fun piece_text :: "piece \<Rightarrow> string" where
  "piece_text (Lit c) = [c]"
| "piece_text (Mark n) = marker_tag n"

definition render :: "piece list \<Rightarrow> string" where
  "render ps = concat (map piece_text ps)"

function pieces :: "string \<Rightarrow> piece list" where
  "pieces s =
     (case s of
        [] \<Rightarrow> []
      | c # cs \<Rightarrow>
          (case match_at s of
             Some n \<Rightarrow> Mark n # pieces (drop (length (marker_tag n)) s)
           | None \<Rightarrow> Lit c # pieces cs))"
  by pat_completeness auto
termination
  by (relation "measure length") (auto simp: marker_tag_def marker_open_def)

fun marks :: "piece list \<Rightarrow> (string \<times> name) list" where
  "marks [] = []"
| "marks (Lit c # ps) = marks ps"
| "marks (Mark n # ps) = (marker_tag n, n) # marks ps"

text \<open>The specification's reading of the name: a run of non-space code units
  directly followed by \<open>" -->\<close>.\<close>

text \<open>The greedy reading \<open>(\S*)" -->\<close> of the specification: the longest run
  of non-space code units is tried first and shortened until \<open>" -->\<close> follows.\<close>

fun greedy_back :: "string \<Rightarrow> nat \<Rightarrow> name option" where
  "greedy_back s 0 = (if starts_with s marker_close then Some [] else None)"
| "greedy_back s (Suc k) =
     (if starts_with (drop (Suc k) s) marker_close then Some (take (Suc k) s)
      else greedy_back s k)"

definition greedy_name :: "string \<Rightarrow> name option" where
  "greedy_name s = greedy_back s (length (takeWhile (\<lambda>c. \<not> js_space c) s))"

definition valid_name :: "string \<Rightarrow> name \<Rightarrow> bool" where
  "valid_name s n \<longleftrightarrow> (\<forall>c \<in> set n. \<not> js_space c) \<and> starts_with s (n @ marker_close)"

declare match_all.simps [simp del] pieces.simps [simp del]

lemma marker_close_split:
  \<open>marker_close = CHR ''"'' # CHR '' '' # ''-->''\<close>
  by (simp add: marker_close_def)

lemma js_space_blank [simp]: "js_space CHR '' ''"
  by (simp add: js_space_def)

lemma lazy_name_sound: "lazy_name s = Some n \<Longrightarrow> valid_name s n"
proof (induction s arbitrary: n)
  case Nil
  then show ?case by (simp add: marker_close_def split: if_splits)
next
  case (Cons c cs)
  then show ?case
    by (auto simp: valid_name_def split: if_splits)
qed

lemma valid_name_close_Nil:
  assumes "starts_with s marker_close" and "valid_name s n"
  shows "n = []"
proof (cases n)
  case (Cons d n')
  with assms show ?thesis
    by (cases n') (auto simp: valid_name_def starts_with_iff marker_close_split)
qed simp

lemma valid_name_Cons:
  "valid_name (c # s) (d # n) \<longleftrightarrow> c = d \<and> \<not> js_space d \<and> valid_name s n"
  by (auto simp: valid_name_def)

lemma valid_name_unique: "valid_name s n1 \<Longrightarrow> valid_name s n2 \<Longrightarrow> n1 = n2"
proof (induction n1 arbitrary: s n2)
  case Nil
  then have "starts_with s marker_close" by (simp add: valid_name_def)
  from valid_name_close_Nil [OF this Nil.prems(2)] show ?case by simp
next
  case (Cons d n1)
  show ?case
  proof (cases n2)
    case Nil
    with Cons.prems have "starts_with s marker_close" by (simp add: valid_name_def)
    from valid_name_close_Nil [OF this Cons.prems(1)] show ?thesis by simp
  next
    case (Cons e n2')
    from Cons.prems obtain c s' where s: "s = c # s'"
      by (cases s) (auto simp: valid_name_def)
    with Cons.prems \<open>n2 = e # n2'\<close> show ?thesis
      by (auto simp: valid_name_Cons intro: Cons.IH)
  qed
qed

lemma lazy_name_complete: "valid_name s n \<Longrightarrow> lazy_name s = Some n"
proof (induction s arbitrary: n)
  case Nil
  then show ?case by (simp add: valid_name_def starts_with_iff)
next
  case (Cons c cs)
  show ?case
  proof (cases "starts_with (c # cs) marker_close")
    case True
    from valid_name_close_Nil [OF True Cons.prems] have "n = []" .
    with True show ?thesis by simp
  next
    case False
    with Cons.prems obtain n' where "n = c # n'" "\<not> js_space c" "valid_name cs n'"
      by (cases n) (auto simp: valid_name_def)
    with False Cons.IH show ?thesis by simp
  qed
qed

lemma lazy_name_iff: "lazy_name s = Some n \<longleftrightarrow> valid_name s n"
  using lazy_name_sound lazy_name_complete by blast

lemma greedy_back_sound:
  "greedy_back s k = Some n \<Longrightarrow> starts_with s (n @ marker_close) \<and> n = take (length n) s \<and> length n \<le> k"
proof (induction k)
  case 0
  then show ?case by (simp split: if_splits)
next
  case (Suc k)
  show ?case
  proof (cases "starts_with (drop (Suc k) s) marker_close")
    case True
    then have "Suc k \<le> length s"
      by (auto dest!: starts_with_length simp: marker_close_def)
    then have len: "length (take (Suc k) s) = Suc k" by simp
    have "starts_with s (take (Suc k) s)"
      by (metis append_take_drop_id starts_with_append)
    with True len have "starts_with s (take (Suc k) s @ marker_close)"
      by (simp add: str_simps)
    with True Suc.prems len show ?thesis by auto
  next
    case False
    with Suc show ?thesis by simp
  qed
qed

lemma take_takeWhile_all:
  "j \<le> length (takeWhile P xs) \<Longrightarrow> \<forall>c \<in> set (take j xs). P c"
proof (induction xs arbitrary: j)
  case (Cons x xs)
  then show ?case by (cases j) (auto split: if_splits)
qed simp

lemma greedy_name_sound: "greedy_name s = Some n \<Longrightarrow> valid_name s n"
proof -
  assume g: "greedy_name s = Some n"
  let ?k = "length (takeWhile (\<lambda>c. \<not> js_space c) s)"
  from g greedy_back_sound [of s ?k n]
  have "starts_with s (n @ marker_close)" "n = take (length n) s" "length n \<le> ?k"
    by (simp_all add: greedy_name_def)
  then show ?thesis
    using take_takeWhile_all [of "length n" "\<lambda>c. \<not> js_space c" s]
    by (simp add: valid_name_def)
qed

lemma greedy_back_complete:
  "valid_name s n \<Longrightarrow> length n \<le> k \<Longrightarrow> greedy_back s k \<noteq> None"
proof (induction k)
  case 0
  then show ?case by (simp add: valid_name_def)
next
  case (Suc k)
  show ?case
  proof (cases "length n = Suc k")
    case True
    with Suc.prems have "starts_with (drop (Suc k) s) marker_close"
      by (auto simp: valid_name_def str_simps)
    then show ?thesis by simp
  next
    case False
    with Suc show ?thesis by auto
  qed
qed

lemma valid_name_takeWhile: "valid_name s n \<Longrightarrow> length n \<le> length (takeWhile (\<lambda>c. \<not> js_space c) s)"
  by (auto simp: valid_name_def str_simps intro: starts_with_takeWhile_length)

text \<open>C29: The lazy group \<open>(\S*?)\<close> of the code and the greedy \<open>\S*\<close> of the
  specification capture the same name on every input: the name is determined by
  the string.\<close>

theorem greedy_name_eq_lazy_name: "greedy_name s = lazy_name s"
proof (cases "lazy_name s")
  case None
  then have "greedy_name s = None"
    using greedy_name_sound lazy_name_complete by (cases "greedy_name s") force+
  with None show ?thesis by simp
next
  case (Some n)
  then have v: "valid_name s n" by (rule lazy_name_sound)
  then obtain n' where g: "greedy_name s = Some n'"
    using greedy_back_complete [OF v valid_name_takeWhile [OF v]]
    by (auto simp: greedy_name_def)
  then have "n' = n" using greedy_name_sound valid_name_unique v by blast
  with g Some show ?thesis by simp
qed

lemma match_at_Some_starts:
  "match_at s = Some n \<Longrightarrow> starts_with s (marker_tag n) \<and> (\<forall>c \<in> set n. \<not> js_space c)"
  by (auto simp: match_at_def valid_name_def marker_tag_def str_simps
      split: if_splits dest!: lazy_name_sound)

lemma match_at_Some_split:
  "match_at s = Some n \<Longrightarrow> s = marker_tag n @ drop (length (marker_tag n)) s"
  by (simp add: match_at_Some_starts starts_with_drop)

lemma render_Cons [simp]: "render (p # ps) = piece_text p @ render ps"
  by (simp add: render_def)

lemma render_Nil [simp]: "render [] = []"
  by (simp add: render_def)

lemma pieces_Nil [simp]: "pieces [] = []"
  by (simp add: pieces.simps)

lemma pieces_Cons:
  "pieces (c # cs) =
     (case match_at (c # cs) of
        Some n \<Rightarrow> Mark n # pieces (drop (length (marker_tag n)) (c # cs))
      | None \<Rightarrow> Lit c # pieces cs)"
  by (simp add: pieces.simps)

lemma render_pieces_eq: "render (pieces s) = s"
proof (induction s rule: pieces.induct)
  case (1 s)
  show ?case
  proof (cases s)
    case (Cons c cs)
    then show ?thesis
      using "1" match_at_Some_split [of s]
      by (cases "match_at s") (auto simp: pieces_Cons)
  qed simp
qed

lemma match_all_eq_marks: "match_all s = marks (pieces s)"
proof (induction s rule: pieces.induct)
  case (1 s)
  show ?case
  proof (cases s)
    case (Cons c cs)
    with "1" show ?thesis
      by (cases "match_at s") (simp_all add: pieces_Cons match_all.simps [of "c # cs"])
  qed (simp add: match_all.simps)
qed

lemma pieces_Lit_no_match:
  "pieces s = ps @ Lit c # qs \<Longrightarrow> match_at (c # render qs) = None"
proof (induction s arbitrary: ps rule: pieces.induct)
  case (1 s)
  show ?case
  proof (cases s)
    case Nil
    with "1.prems" show ?thesis by simp
  next
    case (Cons d ds)
    show ?thesis
    proof (cases "match_at s")
      case None
      with Cons "1.prems" have "Lit d # pieces ds = ps @ Lit c # qs"
        by (simp add: pieces_Cons)
      then show ?thesis
        using "1.IH"(1) [OF Cons None] None Cons render_pieces_eq [of ds]
        by (cases ps) auto
    next
      case (Some n)
      with Cons "1.prems" have "Mark n # pieces (drop (length (marker_tag n)) s) = ps @ Lit c # qs"
        by (simp add: pieces_Cons)
      then show ?thesis
        using "1.IH"(2) [OF Cons Some] by (cases ps) auto
    qed
  qed
qed

lemma match_at_marker_tag:
  "starts_with s (marker_tag n) \<Longrightarrow> \<forall>c \<in> set n. \<not> js_space c \<Longrightarrow> match_at s = Some n"
  by (auto simp: match_at_def lazy_name_iff valid_name_def marker_tag_def str_simps)

lemma render_append [simp]: "render (ps @ qs) = render ps @ render qs"
  by (simp add: render_def)

lemma render_map_Lit [simp]: "render (map Lit xs) = xs"
  by (induction xs) simp_all

lemma marks_map_Lit [simp]: "marks (map Lit xs @ ps) = marks ps" "marks (map Lit xs) = []"
  by (induction xs) simp_all

lemma pieces_Mark_name:
  "pieces s = ps @ Mark n # qs \<Longrightarrow> \<forall>c \<in> set n. \<not> js_space c"
proof (induction s arbitrary: ps rule: pieces.induct)
  case (1 s)
  show ?case
  proof (cases s)
    case Nil
    with "1.prems" show ?thesis by simp
  next
    case (Cons d ds)
    show ?thesis
    proof (cases "match_at s")
      case None
      with Cons "1.prems" have "Lit d # pieces ds = ps @ Mark n # qs"
        by (simp add: pieces_Cons)
      then show ?thesis
        using "1.IH"(1) [OF Cons None] by (cases ps) auto
    next
      case (Some m)
      with Cons "1.prems" have "Mark m # pieces (drop (length (marker_tag m)) s) = ps @ Mark n # qs"
        by (simp add: pieces_Cons)
      then show ?thesis
        using "1.IH"(2) [OF Cons Some] match_at_Some_starts [OF Some] by (cases ps) auto
    qed
  qed
qed

lemma pieces_Lit_prefix:
  assumes p: "pieces s = map Lit b @ qs" and i: "i < length b"
  shows "match_at (drop i s) = None"
proof -
  have b: "b = take i b @ b ! i # drop (Suc i) b" using i by (simp add: id_take_nth_drop)
  then have "pieces s = map Lit (take i b) @ Lit (b ! i) # (map Lit (drop (Suc i) b) @ qs)"
    using p by (metis append.assoc append_Cons list.simps(9) map_append)
  note nm = pieces_Lit_no_match [OF this]
  have "s = take i b @ (b ! i # drop (Suc i) b @ render qs)"
    using render_pieces_eq [of s] p b by (metis append.assoc append_Cons render_append render_map_Lit)
  then have "drop i s = b ! i # render (map Lit (drop (Suc i) b) @ qs)"
    using i by simp
  with nm show ?thesis by simp
qed

subsection \<open>Properties of the scanner\<close>

text \<open>C27: The global scan of \<open>matchAll\<close> cuts the content into literal code units
  and markers: the pieces render back to the content (nothing is lost or
  duplicated), the matches \<open>matchAll\<close> reports are exactly the markers of the
  segmentation in order, and no code unit left as literal text starts a match
  (the scan is leftmost and misses no marker).\<close>

theorem scan_segmentation:
  "render (pieces s) = s \<and> match_all s = marks (pieces s) \<and>
   (\<forall>ps c qs. pieces s = ps @ Lit c # qs \<longrightarrow> match_at (c # render qs) = None)"
  using render_pieces_eq match_all_eq_marks pieces_Lit_no_match by blast

theorem scan_segmentation_witness:
  \<open>render (pieces ''a<!-- replace="x" -->'') = ''a<!-- replace="x" -->'' \<and>
   match_all ''a<!-- replace="x" -->'' = [(marker_tag ''x'', ''x'')] \<and>
   match_at (CHR ''a'' # render [Mark ''x'']) = None\<close>
proof -
  have p: \<open>pieces ''a<!-- replace="x" -->'' = [Lit CHR ''a'', Mark ''x'']\<close>
    by code_simp
  note inst = scan_segmentation [of \<open>''a<!-- replace="x" -->''\<close>]
  have "match_at (CHR ''a'' # render [Mark ''x'']) = None"
    using inst p by (metis append_Nil)
  with inst p show ?thesis by simp
qed

text \<open>C28: The regular expression matches at the head of a string exactly when
  the string starts with \<open><!-- replace="NAME" -->\<close> for a name of non-space code
  units, and the name it captures is that name.\<close>

theorem match_at_iff:
  "match_at s = Some n \<longleftrightarrow> starts_with s (marker_tag n) \<and> (\<forall>c \<in> set n. \<not> js_space c)"
  by (auto simp: match_at_def lazy_name_iff valid_name_def marker_tag_def str_simps)

theorem match_at_iff_witness:
  "starts_with (marker_tag ''ab'' @ ''z'') (marker_tag ''ab'') \<and>
   match_at (marker_tag ''ab'' @ ''z'') = Some ''ab''"
proof -
  have h: "starts_with (marker_tag ''ab'' @ ''z'') (marker_tag ''ab'') \<and> (\<forall>c \<in> set ''ab''. \<not> js_space c)"
    by (simp add: js_space_def)
  with match_at_iff [of "marker_tag ''ab'' @ ''z''" "''ab''"] show ?thesis by simp
qed

lemma marks_wf:
  "(\<And>n. Mark n \<in> set ps \<Longrightarrow> list_all P n) \<Longrightarrow>
   list_all (\<lambda>(t, n). t = marker_tag n \<and> list_all P n) (marks ps)"
  by (induction ps rule: marks.induct) auto

end
