(* ===== verification/JsObject.thy ===== *)
theory JsObject
  imports Prelude
begin

text \<open>
  Property reads on the plain objects of src/InjectTemplate.js, \<open>cache\<close>
  (line 44, read at lines 72 and 82) and \<open>data\<close> (lines 6--9, read at line 10).
  A plain object created by \<open>{}\<close> has its own properties (a map) and inherits
  the members of \<open>Object.prototype\<close>: \<open>obj[key]\<close> returns the own property if
  there is one, else the inherited member, else \<open>undefined\<close>.  When
  \<open>String.prototype.replace\<close> is given one of the inherited functions as
  replacement, it calls it with \<open>this\<close> undefined and the matched text, the
  position and the string, and converts the result with \<open>ToString\<close>
  (\<open>call_replacer\<close>).
\<close>

text \<open>The members of \<open>Object.prototype\<close> by name.\<close>

fun object_proto :: "string \<Rightarrow> jsval option" where
  "object_proto n =
     (if n = ''constructor'' then Some (Builtin ObjectCtor)
      else if n = ''toString'' then Some (Builtin ObjToString)
      else if n = ''toLocaleString'' then Some (Builtin ObjToLocaleString)
      else if n = ''valueOf'' then Some (Builtin ObjValueOf)
      else if n = ''hasOwnProperty'' then Some (Builtin ObjHasOwnProperty)
      else if n = ''isPrototypeOf'' then Some (Builtin ObjIsPrototypeOf)
      else if n = ''propertyIsEnumerable'' then Some (Builtin ObjPropertyIsEnumerable)
      else if n = ''__defineGetter__'' then Some (Builtin ObjDefineGetter)
      else if n = ''__defineSetter__'' then Some (Builtin ObjDefineSetter)
      else if n = ''__lookupGetter__'' then Some (Builtin ObjLookupGetter)
      else if n = ''__lookupSetter__'' then Some (Builtin ObjLookupSetter)
      else if n = ''__proto__'' then Some ObjectPrototype
      else None)"

text \<open>\<open>obj[key]\<close> on a plain object with own properties \<open>m\<close>.\<close>

definition object_get :: "(string \<rightharpoonup> jsval) \<Rightarrow> string \<Rightarrow> jsval" where
  "object_get m n =
     (case m n of
        Some v \<Rightarrow> v
      | None \<Rightarrow> (case object_proto n of Some v \<Rightarrow> v | None \<Rightarrow> Undefined))"

text \<open>\<open>ToString(f(matched, position, string))\<close> with \<open>this\<close> undefined, for
  each inherited function \<open>f\<close>.  \<open>Object(matched)\<close> wraps the matched text, which
  converts back to it; \<open>Object.prototype.toString\<close> reports the undefined
  receiver; \<open>isPrototypeOf\<close> of a string is \<open>false\<close> before the receiver is
  looked at; every other member converts its undefined receiver with
  \<open>ToObject\<close> (directly or through \<open>Invoke\<close>) and throws a \<open>TypeError\<close>.\<close>

fun call_replacer :: "builtin \<Rightarrow> string \<Rightarrow> js_error + string" where
  "call_replacer ObjectCtor m = Inr m"
| "call_replacer ObjToString m = Inr ''[object Undefined]''"
| "call_replacer ObjIsPrototypeOf m = Inr ''false''"
| "call_replacer ObjToLocaleString m = Inl TypeError"
| "call_replacer ObjValueOf m = Inl TypeError"
| "call_replacer ObjHasOwnProperty m = Inl TypeError"
| "call_replacer ObjPropertyIsEnumerable m = Inl TypeError"
| "call_replacer ObjDefineGetter m = Inl TypeError"
| "call_replacer ObjDefineSetter m = Inl TypeError"
| "call_replacer ObjLookupGetter m = Inl TypeError"
| "call_replacer ObjLookupSetter m = Inl TypeError"

declare object_proto.simps [simp del]

lemma object_get_empty: "object_get Map.empty n = (case object_proto n of Some v \<Rightarrow> v | None \<Rightarrow> Undefined)"
  by (simp add: object_get_def)

lemma object_proto_truthy: "object_proto n = Some v \<Longrightarrow> js_truthy v"
  by (auto simp: object_proto.simps split: if_splits)

end
