(* ===== verification/JsReplace.thy ===== *)
theory JsReplace
  imports JsObject
begin

text \<open>
  \<open>target.replace(tag, data)\<close> (src/InjectTemplate.js, line 84) with a string
  pattern, as ECMAScript specifies it: the first occurrence of the pattern is
  found (\<open>StringIndexOf\<close>, here \<open>split_first\<close>), the replacement value is
  converted with \<open>ToString\<close> (so \<open>undefined\<close> becomes the text
  \<open>undefined\<close>), and its \<open>$\<close>-patterns are expanded (\<open>GetSubstitution\<close>, here
  \<open>get_subst\<close>: \<open>$$\<close>, \<open>$&\<close>, \<open>$`\<close> and \<open>$'\<close>; with no capture groups every
  other \<open>$\<close> stays literal).  Only the first occurrence is replaced.
\<close>

fun split_first :: "string \<Rightarrow> string \<Rightarrow> (string \<times> string) option" where
  "split_first pat [] = (if starts_with [] pat then Some ([], []) else None)"
| "split_first pat (c # cs) =
     (if starts_with (c # cs) pat then Some ([], drop (length pat) (c # cs))
      else map_option (\<lambda>(b, a). (c # b, a)) (split_first pat cs))"

text \<open>\<open>get_subst matched before after template\<close>.\<close>

fun get_subst :: "string \<Rightarrow> string \<Rightarrow> string \<Rightarrow> string \<Rightarrow> string" where
  "get_subst m b a [] = []"
| "get_subst m b a [c] = [c]"
| "get_subst m b a (c # d # r) =
     (if c = CHR ''$'' \<and> d = CHR ''$'' then CHR ''$'' # get_subst m b a r
      else if c = CHR ''$'' \<and> d = CHR ''&'' then m @ get_subst m b a r
      else if c = CHR ''$'' \<and> d = CHR 0x60 then b @ get_subst m b a r
      else if c = CHR ''$'' \<and> d = CHR 0x27 then a @ get_subst m b a r
      else c # get_subst m b a (d # r))"

definition js_replace :: "string \<Rightarrow> string \<Rightarrow> jsval \<Rightarrow> js_error + string" where
  "js_replace s pat v =
     (case split_first pat s of
        None \<Rightarrow> Inr s
      | Some (bef, aft) \<Rightarrow>
          (case v of
             Builtin f \<Rightarrow>
               (case call_replacer f pat of Inl e \<Rightarrow> Inl e | Inr r \<Rightarrow> Inr (bef @ r @ aft))
           | _ \<Rightarrow> Inr (bef @ get_subst pat bef aft (js_to_string v) @ aft)))"

text \<open>\<open>occurs_before p s k\<close>: the pattern \<open>p\<close> starts somewhere in the first
  \<open>k\<close> positions of \<open>s\<close>.\<close>

definition occurs_before :: "string \<Rightarrow> string \<Rightarrow> nat \<Rightarrow> bool" where
  "occurs_before p s k \<longleftrightarrow> list_ex (\<lambda>i. starts_with (drop i s) p) [0..<k]"

lemma occurs_before_iff: "occurs_before p s k \<longleftrightarrow> (\<exists>i < k. starts_with (drop i s) p)"
  by (auto simp: occurs_before_def list_ex_iff)

lemma occurs_before_Cons:
  "occurs_before p (c # s) (Suc k) \<longleftrightarrow> starts_with (c # s) p \<or> occurs_before p s k"
  by (auto simp: occurs_before_iff less_Suc_eq_0_disj)

lemma occurs_before_0 [simp]: "\<not> occurs_before p s 0"
  by (simp add: occurs_before_iff)

lemma split_first_Some:
  "split_first p s = Some (b, a) \<Longrightarrow> s = b @ p @ a \<and> \<not> occurs_before p s (length b)"
proof (induction p s arbitrary: b rule: split_first.induct)
  case (1 pat)
  then show ?case by (auto simp: starts_with_iff split: if_splits)
next
  case (2 pat c cs)
  show ?case
  proof (cases "starts_with (c # cs) pat")
    case True
    with "2.prems" show ?thesis by (auto dest: starts_with_drop)
  next
    case False
    with "2.prems" obtain b' where b: "b = c # b'" "split_first pat cs = Some (b', a)"
      by auto
    with "2.IH" [OF False] False show ?thesis
      by (auto simp: occurs_before_Cons)
  qed
qed

lemma split_first_None: "split_first p s = None \<Longrightarrow> \<not> occurs_before p s (Suc (length s))"
proof (induction p s rule: split_first.induct)
  case (1 pat)
  then show ?case by (simp add: occurs_before_iff split: if_splits)
next
  case (2 pat c cs)
  then show ?case by (auto simp: occurs_before_Cons split: if_splits)
qed

lemma split_first_prefix: "split_first p (p @ a) = Some ([], a)"
proof (cases "p @ a")
  case Nil
  then show ?thesis by simp
next
  case (Cons x xs)
  then have "starts_with (x # xs) p" "drop (length p) (x # xs) = a"
    by (metis starts_with_append, metis append_eq_conv_conj)
  with Cons show ?thesis by simp
qed

lemma split_first_complete:
  assumes "s = b @ p @ a" and "\<not> occurs_before p s (length b)"
  shows "split_first p s = Some (b, a)"
  using assms
proof (induction b arbitrary: s)
  case Nil
  then show ?case by (simp add: split_first_prefix)
next
  case (Cons c b)
  then have "\<not> starts_with s p" "\<not> occurs_before p (b @ p @ a) (length b)"
    by (simp_all add: occurs_before_Cons)
  with Cons.IH [OF refl] Cons.prems(1) show ?case by simp
qed

lemma get_subst_no_dollar: "CHR ''$'' \<notin> set r \<Longrightarrow> get_subst m b a r = r"
  by (induction m b a r rule: get_subst.induct) auto

lemma js_replace_first:
  assumes "s = b @ p @ a" and "\<not> occurs_before p s (length b)" and "\<forall>f. v \<noteq> Builtin f"
  shows "js_replace s p v = Inr (b @ get_subst p b a (js_to_string v) @ a)"
  using split_first_complete [OF assms(1,2)] assms(3) by (cases v) (simp_all add: js_replace_def)

lemma js_replace_call:
  assumes "s = b @ p @ a" and "\<not> occurs_before p s (length b)"
  shows "js_replace s p (Builtin f) =
    (case call_replacer f p of Inl e \<Rightarrow> Inl e | Inr r \<Rightarrow> Inr (b @ r @ a))"
  using split_first_complete [OF assms] by (simp add: js_replace_def)

text \<open>C31: When the pattern does not occur in the string,
  \<open>String.prototype.replace\<close> returns the string unchanged.\<close>

theorem js_replace_absent:
  assumes "\<not> occurs_before p s (Suc (length s))"
  shows "js_replace s p v = Inr s"
proof (cases "split_first p s")
  case (Some ba)
  then obtain b a where "split_first p s = Some (b, a)" by (cases ba) auto
  then have "s = b @ p @ a" by (simp add: split_first_Some)
  then have "occurs_before p s (Suc (length s))"
    unfolding occurs_before_iff by (intro exI [of _ "length b"]) simp
  with assms show ?thesis by simp
qed (simp add: js_replace_def)

theorem js_replace_absent_witness:
  "\<not> occurs_before ''<x>'' ''abc'' (Suc (length ''abc'')) \<and> js_replace ''abc'' ''<x>'' (Str ''v'') = Inr ''abc''"
proof -
  have h: "\<not> occurs_before ''<x>'' ''abc'' (Suc (length ''abc''))"
    by (simp add: occurs_before_def)
  from h js_replace_absent [OF h] show ?thesis by blast
qed

text \<open>C30: \<open>replace\<close> with a string pattern replaces the first occurrence of the
  pattern, and only it, by the replacement text, provided the replacement
  contains no \<open>$\<close>: with no \<open>$\<close> the substitution template is copied literally.\<close>

theorem js_replace_literal:
  assumes "s = b @ p @ a" and "\<not> occurs_before p s (length b)" and "CHR ''$'' \<notin> set x"
  shows "js_replace s p (Str x) = Inr (b @ x @ a)"
  using js_replace_first [OF assms(1,2)] get_subst_no_dollar [OF assms(3)] by simp

theorem js_replace_literal_witness:
  "js_replace ''q<t>r<t>'' ''<t>'' (Str ''Z'') = Inr ''qZr<t>''"
proof -
  have h1: "''q<t>r<t>'' = ''q'' @ ''<t>'' @ ''r<t>''" by simp
  have h2: "\<not> occurs_before ''<t>'' ''q<t>r<t>'' (length ''q'')" by (simp add: occurs_before_def)
  have h3: "CHR ''$'' \<notin> set ''Z''" by simp
  from js_replace_literal [OF h1 h2 h3] show ?thesis by simp
qed

lemma get_subst_dollar_amp:
  "CHR ''$'' \<notin> set x \<Longrightarrow> CHR ''$'' \<notin> set y \<Longrightarrow> get_subst m b a (x @ ''$&'' @ y) = x @ m @ y"
proof (induction x)
  case (Cons c x)
  then show ?case by (cases "x @ ''$&'' @ y") auto
qed (simp add: get_subst_no_dollar)

text \<open>C32: A replacement text holding \<open>$&\<close> is not inserted literally:
  for every value \<open>x $& y\<close> with no other \<open>$\<close>, \<open>GetSubstitution\<close> expands
  \<open>$&\<close> to the matched pattern, so the marker the replacement was meant to
  remove is written back between \<open>x\<close> and \<open>y\<close>.\<close>

theorem js_replace_dollar_amp:
  assumes "s = b @ p @ a" and "\<not> occurs_before p s (length b)"
    and "CHR ''$'' \<notin> set x" and "CHR ''$'' \<notin> set y"
  shows "js_replace s p (Str (x @ ''$&'' @ y)) = Inr (b @ x @ p @ y @ a)"
  using js_replace_first [OF assms(1,2)] get_subst_dollar_amp [OF assms(3,4)] by simp

theorem js_replace_dollar_amp_witness:
  "js_replace ''a<t>b'' ''<t>'' (Str ''[$&]'') = Inr ''a[<t>]b''"
proof -
  have h1: "''a<t>b'' = ''a'' @ ''<t>'' @ ''b''" by simp
  have h2: "\<not> occurs_before ''<t>'' ''a<t>b'' (length ''a'')" by (simp add: occurs_before_def)
  have h3: "CHR ''$'' \<notin> set ''[''" and h4: "CHR ''$'' \<notin> set '']''" by simp_all
  from js_replace_dollar_amp [OF h1 h2 h3 h4] show ?thesis by simp
qed

end
