(* ===== verification/DataSource.thy ===== *)
theory DataSource
  imports JsObject
begin

text \<open>
  The data source of the plugin.  \<open>RemoteData\<close> (src/InjectTemplate.js, lines
  5--11) looks the key up in a fixed two-entry table and returns
  \<open>Promise.resolve(data[key])\<close>: it never rejects, and a key outside the table
  resolves to \<open>undefined\<close>, or to the inherited member of \<open>Object.prototype\<close>
  of that name.  The engine is stated over any data source of type
  \<^typ>\<open>datasource\<close> (a settled outcome per name), so that rejection, which the
  specification requires the engine to report, can be studied too.
\<close>

text \<open>The object literal \<open>data\<close> of lines 6--9: its own properties.\<close>

definition data_table :: "string \<rightharpoonup> jsval" where
  "data_table = [''header'' \<mapsto> Str ''<div>THIS IS HEADER</div>'', ''footer'' \<mapsto> Str ''<div>THIS IS FOOTER</div>'']"

text \<open>\<open>data[key]\<close>: an own property, an inherited member, or \<open>undefined\<close>.\<close>

definition remote_data :: "name \<Rightarrow> jsval" where
  "remote_data k = object_get data_table k"

definition remote_source :: datasource where
  "remote_source k = Resolved (remote_data k)"

definition never_rejects :: "datasource \<Rightarrow> bool" where
  "never_rejects ds \<longleftrightarrow> (\<forall>n. ds n \<noteq> Rejected)"

lemma remote_source_never_rejects: "never_rejects remote_source"
  by (simp add: never_rejects_def remote_source_def)

end
