(* ===== verification/Engine.thy ===== *)
theory Engine
  imports Marker JsReplace DataSource
begin

text \<open>
  \<open>InjectTemplate.replaceAssets\<close> (src/InjectTemplate.js, lines 41--106) as an
  event-driven machine.  \<open>replace_assets\<close> is the synchronous part of the call:
  the executor of \<open>new Promise\<close> runs the \<open>for\<close> loop over
  \<open>Object.keys(assets)\<close> (\<open>replace_loop\<close>), which for every \<open>.html\<close> key scans the
  content, reads the cache or calls the data source for every marker
  (\<open>collect_tags\<close>) and launches a promise chain; a non-HTML key that is the
  last key calls \<open>resolve()\<close> at once.  Each chain is a task with three
  continuations, run later by the microtask queue in an order the model leaves
  open: \<open>then_substitute\<close> (lines 77--86), \<open>then_commit\<close> (lines 87--99) and
  \<open>then_resolve\<close> (lines 100--103); a rejected fetch makes \<open>Promise.all\<close>
  reject and the chain stops (\<open>then_reject\<close>), and so does a \<open>replace\<close> that
  throws inside \<open>then_substitute\<close>.  Reads of \<open>cache[name]\<close> see the members
  the plain object inherits (theory \<open>JsObject\<close>).  \<open>chain_step\<close> is the step
  relation of the microtask phase: any pending continuation of any task.
\<close>

subsection \<open>Assets and the eligibility test\<close>

text \<open>A webpack asset as the plugin uses it: \<open>source()\<close> and
  \<open>size() = this.source().length\<close>.\<close>

record asset =
  source :: string

definition asset_size :: "asset \<Rightarrow> nat" where
  "asset_size a = length (source a)"

definition mk_asset :: "string \<Rightarrow> asset" where
  "mk_asset t = \<lparr>source = t\<rparr>"

definition js_line_terminator :: "char \<Rightarrow> bool" where
  "js_line_terminator c \<longleftrightarrow> c = CHR 0x0A \<or> c = CHR 0x0D"

text \<open>\<open>.*\.html$\<close> at the head of a string: \<open>.\<close> is any code unit but a
  line terminator, \<open>$\<close> is the end of the input (no multiline flag).\<close>

fun dot_star_html :: "string \<Rightarrow> bool" where
  "dot_star_html [] = ([] = ''.html'')"
| "dot_star_html (c # cs) =
     (c # cs = ''.html'' \<or> (\<not> js_line_terminator c \<and> dot_star_html cs))"

text \<open>\<open>/.*\.html$/.test(key)\<close>: the pattern is unanchored, so every start
  position is tried.\<close>

definition is_html :: "key \<Rightarrow> bool" where
  "is_html k \<longleftrightarrow> list_ex (\<lambda>i. dot_star_html (drop i k)) [0..<Suc (length k)]"

subsection \<open>Cache, tags and tasks\<close>

text \<open>\<open>cache[name]\<close> read as a condition: a truthy value is used, a falsy one
  (\<open>undefined\<close> or the empty string) is not.  The read sees the members
  \<open>cache\<close> inherits from \<open>Object.prototype\<close>, all of which are truthy.\<close>

definition cache_lookup :: "(name \<rightharpoonup> jsval) \<Rightarrow> name \<Rightarrow> jsval option" where
  "cache_lookup c n = (let v = object_get c n in if js_truthy v then Some v else None)"

record tag_entry =
  tag :: string
  tname :: name
  tdata :: fetch_result

text \<open>Lines 64--74: one entry per match, in match order; a fetch is issued
  (and logged) for every name without a truthy cache entry.  The result is the
  tags and the names fetched, in order.\<close>

fun collect_tags ::
  "datasource \<Rightarrow> (name \<rightharpoonup> jsval) \<Rightarrow> (string \<times> name) list \<Rightarrow> tag_entry list \<times> name list" where
  "collect_tags ds c [] = ([], [])"
| "collect_tags ds c ((t, n) # ms) =
     (let (ts, fs) = collect_tags ds c ms in
      case cache_lookup c n of
        Some v \<Rightarrow> (\<lparr>tag = t, tname = n, tdata = Resolved v\<rparr> # ts, fs)
      | None \<Rightarrow> (\<lparr>tag = t, tname = n, tdata = ds n\<rparr> # ts, n # fs))"

text \<open>What \<open>cache[name] ? cache[name] : RemoteData(name)\<close> gives while the cache
  has no own property yet, as in the loop: the inherited member for a name of
  \<open>Object.prototype\<close>, the data source's answer for every other name.\<close>

definition initial_data :: "datasource \<Rightarrow> name \<Rightarrow> fetch_result" where
  "initial_data ds n = (case object_proto n of Some v \<Rightarrow> Resolved v | None \<Rightarrow> ds n)"

datatype stage = Pending | Substituted | Committed | Finished | Failed

text \<open>A launched chain: the variables its closures capture (\<open>key\<close>,
  \<open>target\<close>, \<open>tags\<close>, \<open>isLastAsset\<close>) and how far it has run.\<close>

record task =
  tkey :: key
  target :: string
  tags :: "tag_entry list"
  is_last :: bool
  stage :: stage

record engine =
  assets :: "(key \<times> asset) list"
  cache :: "name \<rightharpoonup> jsval"
  tasks :: "task list"
  resolved :: bool
  fetches :: "name list"

subsection \<open>The synchronous loop\<close>

fun replace_loop :: "datasource \<Rightarrow> key \<Rightarrow> (key \<times> asset) list \<Rightarrow> engine \<Rightarrow> engine" where
  "replace_loop ds lastk [] s = s"
| "replace_loop ds lastk ((k, a) # rest) s =
     (if \<not> is_html k then
        replace_loop ds lastk rest (if k = lastk then s\<lparr>resolved := True\<rparr> else s)
      else
        (let (ts, fs) = collect_tags ds (cache s) (match_all (source a));
             t = \<lparr>tkey = k, target = source a, tags = ts, is_last = (k = lastk), stage = Pending\<rparr>
         in replace_loop ds lastk rest (s\<lparr>tasks := tasks s @ [t], fetches := fetches s @ fs\<rparr>)))"

definition init_engine :: "(key \<times> asset) list \<Rightarrow> engine" where
  "init_engine as = \<lparr>assets = as, cache = Map.empty, tasks = [], resolved = False, fetches = []\<rparr>"

definition replace_assets :: "datasource \<Rightarrow> (key \<times> asset) list \<Rightarrow> engine" where
  "replace_assets ds as =
     (case as of
        [] \<Rightarrow> init_engine as
      | _ \<Rightarrow> replace_loop ds (fst (last as)) as (init_engine as))"

subsection \<open>The promise chains\<close>

text \<open>\<open>Promise.all(tags.map(item => item.data))\<close>: the values in tag order,
  or \<open>None\<close> when some fetch rejected.\<close>

fun all_resolved :: "tag_entry list \<Rightarrow> jsval list option" where
  "all_resolved [] = Some []"
| "all_resolved (e # es) =
     (case tdata e of
        Rejected \<Rightarrow> None
      | Resolved v \<Rightarrow> map_option (Cons v) (all_resolved es))"

text \<open>The \<open>forEach\<close> of lines 78--85: per result, fill the cache where the
  entry is falsy, then replace the first occurrence of the tag.\<close>

fun apply_results ::
  "(name \<rightharpoonup> jsval) \<Rightarrow> string \<Rightarrow> (tag_entry \<times> jsval) list \<Rightarrow>
   (name \<rightharpoonup> jsval) \<times> string \<times> js_error option" where
  "apply_results c t [] = (c, t, None)"
| "apply_results c t ((e, v) # rs) =
     (let c' = (if cache_lookup c (tname e) = None then c(tname e \<mapsto> v) else c)
      in case js_replace t (tag e) v of
           Inl err \<Rightarrow> (c', t, Some err)
         | Inr t' \<Rightarrow> apply_results c' t' rs)"

text \<open>The first \<open>then\<close>: when the callback returns, the chain moves on; when
  \<open>replace\<close> throws, the promise of the \<open>then\<close> rejects and the rest of the chain
  is skipped.  The cache writes made before the throw stay.\<close>

definition then_substitute :: "engine \<Rightarrow> nat \<Rightarrow> jsval list \<Rightarrow> engine" where
  "then_substitute s i vs =
     (let t = tasks s ! i;
          (c', tgt, err) = apply_results (cache s) (target t) (zip (tags t) vs)
      in s\<lparr>cache := c',
           tasks := (tasks s)[i := t\<lparr>target := tgt,
                                   stage := (case err of None \<Rightarrow> Substituted | Some e \<Rightarrow> Failed)\<rparr>]\<rparr>)"

definition then_reject :: "engine \<Rightarrow> nat \<Rightarrow> engine" where
  "then_reject s i = s\<lparr>tasks := (tasks s)[i := (tasks s ! i)\<lparr>stage := Failed\<rparr>]\<rparr>"

definition then_commit :: "engine \<Rightarrow> nat \<Rightarrow> engine" where
  "then_commit s i =
     (let t = tasks s ! i
      in s\<lparr>assets := AList.update (tkey t) (mk_asset (target t)) (assets s),
           tasks := (tasks s)[i := t\<lparr>stage := Committed\<rparr>]\<rparr>)"

definition then_resolve :: "engine \<Rightarrow> nat \<Rightarrow> engine" where
  "then_resolve s i =
     (let t = tasks s ! i
      in s\<lparr>resolved := (resolved s \<or> is_last t), tasks := (tasks s)[i := t\<lparr>stage := Finished\<rparr>]\<rparr>)"

declare then_substitute_def [engine_defs] then_reject_def [engine_defs]
  then_commit_def [engine_defs] then_resolve_def [engine_defs]

inductive chain_step :: "engine \<Rightarrow> engine \<Rightarrow> bool" where
  substitute: "i < length (tasks s) \<Longrightarrow> stage (tasks s ! i) = Pending \<Longrightarrow>
    all_resolved (tags (tasks s ! i)) = Some vs \<Longrightarrow> chain_step s (then_substitute s i vs)"
| reject: "i < length (tasks s) \<Longrightarrow> stage (tasks s ! i) = Pending \<Longrightarrow>
    all_resolved (tags (tasks s ! i)) = None \<Longrightarrow> chain_step s (then_reject s i)"
| commit: "i < length (tasks s) \<Longrightarrow> stage (tasks s ! i) = Substituted \<Longrightarrow>
    chain_step s (then_commit s i)"
| finish: "i < length (tasks s) \<Longrightarrow> stage (tasks s ! i) = Committed \<Longrightarrow>
    chain_step s (then_resolve s i)"

definition reachable :: "datasource \<Rightarrow> (key \<times> asset) list \<Rightarrow> engine \<Rightarrow> bool" where
  "reachable ds as s \<longleftrightarrow> chain_step\<^sup>*\<^sup>* (replace_assets ds as) s"

text \<open>One deterministic schedule: every chain run to its end, in launch order.\<close>

definition run_task :: "engine \<Rightarrow> nat \<Rightarrow> engine" where
  "run_task s i =
     (case all_resolved (tags (tasks s ! i)) of
        None \<Rightarrow> then_reject s i
      | Some vs \<Rightarrow>
          (let s1 = then_substitute s i vs
           in if stage (tasks s1 ! i) = Failed then s1 else then_resolve (then_commit s1 i) i))"

definition drain :: "engine \<Rightarrow> engine" where
  "drain s = fold (\<lambda>i s. run_task s i) [0..<length (tasks s)] s"

definition final :: "engine \<Rightarrow> bool" where
  "final s \<longleftrightarrow> list_all (\<lambda>t. stage t = Finished \<or> stage t = Failed) (tasks s)"

subsection \<open>The synchronous loop: what it leaves behind\<close>

lemma cache_lookup_empty [simp]: "cache_lookup Map.empty n = object_proto n"
  by (cases "object_proto n") (simp_all add: cache_lookup_def object_get_empty object_proto_truthy)

lemma cache_lookup_inherited:
  assumes own: "\<forall>m. c m \<noteq> None \<longrightarrow> object_proto m = None" and n: "cache_lookup c n = None"
  shows "object_proto n = None"
proof (cases "c n")
  case None
  with n show ?thesis
    by (cases "object_proto n") (auto simp: cache_lookup_def object_get_def object_proto_truthy)
qed (use own in auto)

lemma collect_tags_empty:
  "collect_tags ds Map.empty ms =
     (map (\<lambda>(t, n). \<lparr>tag = t, tname = n, tdata = initial_data ds n\<rparr>) ms,
      filter (\<lambda>n. object_proto n = None) (map snd ms))"
  by (induction ms) (auto simp: initial_data_def split: option.split)

lemma collect_tags_empty_fetched [simp]:
  "snd (collect_tags ds Map.empty ms) = filter (\<lambda>n. object_proto n = None) (map snd ms)"
  by (simp add: collect_tags_empty)

lemma replace_loop_fetches_gen:
  "cache s = c \<Longrightarrow> fetches (replace_loop ds lk as s) =
     fetches s @ concat (map (\<lambda>(k, a). if is_html k
                                       then snd (collect_tags ds c (match_all (source a)))
                                       else []) as)"
  by (induction ds lk as s rule: replace_loop.induct) (auto simp: Let_def split: prod.splits)

lemma replace_loop_tasks_gen:
  "cache s = c \<Longrightarrow> tasks (replace_loop ds lk as s) =
     tasks s @ map (\<lambda>(k, a). \<lparr>tkey = k, target = source a,
                       tags = fst (collect_tags ds c (match_all (source a))),
                       is_last = (k = lk), stage = Pending\<rparr>)
                 (filter (\<lambda>(k, a). is_html k) as)"
  by (induction ds lk as s rule: replace_loop.induct) (auto simp: Let_def split: prod.splits)

lemma replace_loop_resolved:
  "resolved (replace_loop ds lk as s) = (resolved s \<or> (\<exists>(k, a) \<in> set as. \<not> is_html k \<and> k = lk))"
proof (induction ds lk as s rule: replace_loop.induct)
  case (2 ds lastk k a rest s)
  then show ?case
    by (cases "collect_tags ds (cache s) (match_all (source a))") (auto simp: Let_def)
qed simp

lemma replace_loop_frame:
  "assets (replace_loop ds lk as s) = assets s \<and> cache (replace_loop ds lk as s) = cache s"
  by (induction ds lk as s rule: replace_loop.induct) (auto simp: Let_def split: prod.splits)

lemma replace_assets_Nil [simp]: "replace_assets ds [] = init_engine []"
  by (simp add: replace_assets_def)

lemma replace_assets_non_Nil:
  "as \<noteq> [] \<Longrightarrow> replace_assets ds as = replace_loop ds (fst (last as)) as (init_engine as)"
  by (cases as) (simp_all add: replace_assets_def)

lemma init_engine_simps [simp]:
  "assets (init_engine as) = as" "cache (init_engine as) = Map.empty" "tasks (init_engine as) = []"
  "resolved (init_engine as) = False" "fetches (init_engine as) = []"
  by (simp_all add: init_engine_def)

lemma replace_assets_assets [simp]: "assets (replace_assets ds as) = as"
  by (cases "as = []") (simp_all add: replace_assets_non_Nil replace_loop_frame)

lemma replace_assets_cache [simp]: "cache (replace_assets ds as) = Map.empty"
  by (cases "as = []") (simp_all add: replace_assets_non_Nil replace_loop_frame)

lemma replace_assets_tasks:
  "tasks (replace_assets ds as) =
     map (\<lambda>(k, a). \<lparr>tkey = k, target = source a,
                    tags = map (\<lambda>(t, n). \<lparr>tag = t, tname = n, tdata = initial_data ds n\<rparr>) (match_all (source a)),
                    is_last = (k = fst (last as)), stage = Pending\<rparr>)
         (filter (\<lambda>(k, a). is_html k) as)"
  by (cases "as = []")
    (simp_all add: replace_assets_non_Nil replace_loop_tasks_gen [of _ Map.empty] collect_tags_empty)

lemma replace_assets_resolved:
  "resolved (replace_assets ds as) = (as \<noteq> [] \<and> \<not> is_html (fst (last as)))"
proof (cases "as = []")
  case False
  then have "(\<exists>(k, a) \<in> set as. \<not> is_html k \<and> k = fst (last as)) = (\<not> is_html (fst (last as)))"
    using last_in_set [OF False] by (cases "last as") force
  with False show ?thesis
    by (simp add: replace_assets_non_Nil replace_loop_resolved)
qed simp

lemma replace_assets_fetches:
  "fetches (replace_assets ds as) =
     concat (map (\<lambda>(k, a). if is_html k then filter (\<lambda>n. object_proto n = None) (map snd (match_all (source a)))
                           else []) as)"
proof (cases "as = []")
  case False
  have "fetches (replace_loop ds (fst (last as)) as (init_engine as)) =
        concat (map (\<lambda>(k, a). if is_html k then filter (\<lambda>n. object_proto n = None) (map snd (match_all (source a)))
                           else []) as)"
    using replace_loop_fetches_gen [of "init_engine as" Map.empty ds "fst (last as)" as]
    by (simp cong: if_cong)
  with False show ?thesis by (simp add: replace_assets_non_Nil)
qed simp

subsection \<open>The eligibility test\<close>

lemma dot_star_html_iff:
  "dot_star_html s \<longleftrightarrow> (\<exists>p. s = p @ ''.html'' \<and> (\<forall>c \<in> set p. \<not> js_line_terminator c))"
proof (induction s)
  case (Cons c cs)
  show ?case
  proof
    assume "dot_star_html (c # cs)"
    with Cons.IH show "\<exists>p. c # cs = p @ ''.html'' \<and> (\<forall>c \<in> set p. \<not> js_line_terminator c)"
      by (auto intro: exI [of _ "[]"] exI [of _ "c # p" for p])
  next
    assume "\<exists>p. c # cs = p @ ''.html'' \<and> (\<forall>c \<in> set p. \<not> js_line_terminator c)"
    then obtain p where "c # cs = p @ ''.html''" "\<forall>c \<in> set p. \<not> js_line_terminator c" by blast
    with Cons.IH show "dot_star_html (c # cs)"
      by (cases p) auto
  qed
qed simp

text \<open>C21: The test \<open>/.*\.html$/.test(key)\<close> holds exactly when the key ends
  with \<open>.html\<close>, as the specification's eligibility rule says: the unanchored
  start lets a match begin after any line terminator, and \<open>$\<close> anchors the
  suffix.\<close>

theorem is_html_iff_suffix: "is_html k \<longleftrightarrow> (\<exists>p. k = p @ ''.html'')"
proof
  assume "is_html k"
  then obtain i p where "drop i k = p @ ''.html''"
    by (auto simp: is_html_def list_ex_iff dot_star_html_iff)
  then have "k = (take i k @ p) @ ''.html''"
    by (metis append.assoc append_take_drop_id)
  then show "\<exists>p. k = p @ ''.html''" ..
next
  assume "\<exists>p. k = p @ ''.html''"
  then obtain p where k: "k = p @ ''.html''" ..
  then have "dot_star_html (drop (length p) k)" by (simp add: dot_star_html_iff)
  with k show "is_html k"
    unfolding is_html_def list_ex_iff by (intro bexI [of _ "length p"]) auto
qed

end
