(* ===== verification/Chains.thy ===== *)
theory Chains
  imports Engine
begin

text \<open>
  The invariant of the microtask phase of \<open>replaceAssets\<close>.  \<open>engine_inv s0 s\<close>
  relates a state \<open>s\<close> reached by \<open>chain_step\<close> to the state \<open>s0\<close> the
  synchronous loop left: every chain keeps its key, tags and \<open>isLastAsset\<close>;
  its \<open>target\<close> is the original content until \<open>then_substitute\<close> has run and
  the full substitution (\<open>outcome\<close>) after, and a chain fails exactly when a
  fetch rejected or a \<open>replace\<close> threw (\<open>outcome\<close> is then \<open>None\<close>); an asset entry differs from the
  original only under the key of a committed chain, and then holds that chain's
  text; \<open>resolve()\<close> has been called exactly when the loop called it or a chain
  with \<open>isLastAsset\<close> has finished; no fetch is issued after the loop; and the
  cache holds own properties only under names \<open>Object.prototype\<close> does not have,
  and only values some tag resolved to (\<open>cache_ok\<close>).
\<close>

fun substitute_tags :: "string \<Rightarrow> (tag_entry \<times> jsval) list \<Rightarrow> js_error + string" where
  "substitute_tags t [] = Inr t"
| "substitute_tags t ((e, v) # rs) =
     (case js_replace t (tag e) v of Inl err \<Rightarrow> Inl err | Inr t' \<Rightarrow> substitute_tags t' rs)"

text \<open>What a chain writes when it runs to its end: nothing when a fetch rejects
  or a \<open>replace\<close> throws, the fully substituted content otherwise.\<close>

definition subst_outcome :: "string \<Rightarrow> tag_entry list \<Rightarrow> string option" where
  "subst_outcome src es =
     (case all_resolved es of
        None \<Rightarrow> None
      | Some vs \<Rightarrow> (case substitute_tags src (zip es vs) of Inl err \<Rightarrow> None | Inr t \<Rightarrow> Some t))"

definition outcome :: "task \<Rightarrow> string option" where
  "outcome t = subst_outcome (target t) (tags t)"

definition committed :: "stage \<Rightarrow> bool" where
  "committed st \<longleftrightarrow> st = Committed \<or> st = Finished"

definition task_inv :: "task \<Rightarrow> task \<Rightarrow> bool" where
  "task_inv t0 t \<longleftrightarrow>
     tkey t = tkey t0 \<and> tags t = tags t0 \<and> is_last t = is_last t0 \<and>
     (stage t = Pending \<longrightarrow> target t = target t0) \<and>
     (stage t = Substituted \<or> committed (stage t) \<longrightarrow> outcome t0 = Some (target t)) \<and>
     (stage t = Failed \<longrightarrow> outcome t0 = None)"

definition launched :: "engine \<Rightarrow> bool" where
  "launched s0 \<longleftrightarrow>
     distinct (map tkey (tasks s0)) \<and> cache s0 = Map.empty \<and>
     list_all (\<lambda>t. stage t = Pending \<and> tkey t \<in> set (map fst (assets s0))) (tasks s0)"

text \<open>The cache holds own properties only under names \<open>Object.prototype\<close> does
  not have, and only values some tag of the run resolved to.\<close>

definition cache_ok :: "engine \<Rightarrow> (name \<rightharpoonup> jsval) \<Rightarrow> bool" where
  "cache_ok s0 c \<longleftrightarrow>
     (\<forall>n v. c n = Some v \<longrightarrow> object_proto n = None \<and>
        (\<exists>t \<in> set (tasks s0). \<exists>e \<in> set (tags t). tname e = n \<and> tdata e = Resolved v))"

definition engine_inv :: "engine \<Rightarrow> engine \<Rightarrow> bool" where
  "engine_inv s0 s \<longleftrightarrow>
     list_all2 task_inv (tasks s0) (tasks s) \<and>
     map fst (assets s) = map fst (assets s0) \<and>
     (\<forall>j < length (tasks s). committed (stage (tasks s ! j)) \<longrightarrow>
        map_of (assets s) (tkey (tasks s ! j)) = Some (mk_asset (target (tasks s ! j)))) \<and>
     (\<forall>k. (\<forall>j < length (tasks s). committed (stage (tasks s ! j)) \<longrightarrow> tkey (tasks s ! j) \<noteq> k) \<longrightarrow>
        map_of (assets s) k = map_of (assets s0) k) \<and>
     resolved s = (resolved s0 \<or>
        (\<exists>j < length (tasks s). is_last (tasks s ! j) \<and> stage (tasks s ! j) = Finished)) \<and>
     fetches s = fetches s0 \<and>
     cache_ok s0 (cache s)"

subsection \<open>Facts about the continuations\<close>

lemma apply_results_target:
  "apply_results c t rs = (c', t', err) \<Longrightarrow>
   substitute_tags t rs = (case err of None \<Rightarrow> Inr t' | Some e \<Rightarrow> Inl e)"
proof (induction c t rs arbitrary: c' t' err rule: apply_results.induct)
  case (2 c t e v rs)
  then show ?case by (auto simp: Let_def split: sum.splits)
qed simp

lemma apply_results_cache:
  "\<forall>m. c m \<noteq> None \<longrightarrow> object_proto m = None \<Longrightarrow> fst (apply_results c t rs) n = Some v \<Longrightarrow>
   c n = Some v \<or> (object_proto n = None \<and> (\<exists>(e, v') \<in> set rs. tname e = n \<and> v' = v))"
proof (induction c t rs rule: apply_results.induct)
  case (2 c t e w rs)
  let ?c' = "if cache_lookup c (tname e) = None then c(tname e \<mapsto> w) else c"
  have own: "\<forall>m. ?c' m \<noteq> None \<longrightarrow> object_proto m = None"
    using "2.prems"(1) cache_lookup_inherited [OF "2.prems"(1), of "tname e"] by auto
  have "?c' n = Some v \<or> (object_proto n = None \<and> (\<exists>(e, v') \<in> set rs. tname e = n \<and> v' = v))"
  proof (cases "js_replace t (tag e) w")
    case (Inl err)
    with "2.prems"(2) show ?thesis by (simp add: Let_def)
  next
    case (Inr t')
    with "2.prems"(2) "2.IH" [OF refl _ own] show ?thesis by (simp add: Let_def)
  qed
  then show ?case using own by (auto split: if_splits)
qed simp

lemma all_resolved_zip:
  "all_resolved es = Some vs \<Longrightarrow> (e, v) \<in> set (zip es vs) \<Longrightarrow> e \<in> set es \<and> tdata e = Resolved v"
proof (induction es arbitrary: vs)
  case (Cons e' es)
  then show ?case by (auto split: fetch_result.splits)
qed simp

lemma all_resolved_None_iff: "all_resolved es = None \<longleftrightarrow> (\<exists>e \<in> set es. tdata e = Rejected)"
  by (induction es) (auto split: fetch_result.splits)

lemma list_all2_update_right:
  "list_all2 P xs ys \<Longrightarrow> i < length ys \<Longrightarrow> P (xs ! i) y \<Longrightarrow> list_all2 P xs (ys[i := y])"
  by (metis list_all2_lengthD list_all2_update_cong list_update_id)

lemma task_inv_nth:
  "list_all2 task_inv (tasks s0) (tasks s) \<Longrightarrow> i < length (tasks s) \<Longrightarrow>
   task_inv (tasks s0 ! i) (tasks s ! i)"
  by (simp add: list_all2_conv_all_nth)

lemma task_inv_keys:
  "list_all2 task_inv xs ys \<Longrightarrow> map tkey ys = map tkey xs"
  by (induction rule: list_all2_induct) (simp_all add: task_inv_def)

lemma distinct_tkey_neq:
  "distinct (map tkey ts) \<Longrightarrow> i < length ts \<Longrightarrow> j < length ts \<Longrightarrow> i \<noteq> j \<Longrightarrow>
   tkey (ts ! i) \<noteq> tkey (ts ! j)"
  by (metis length_map nth_eq_iff_index_eq nth_map)

lemma map_fst_update_existing:
  "k \<in> set (map fst al) \<Longrightarrow> map fst (AList.update k v al) = map fst al"
  by (induction al) auto

subsection \<open>Every continuation keeps the invariant\<close>

lemma engine_invD:
  assumes "engine_inv s0 s"
  shows "list_all2 task_inv (tasks s0) (tasks s)"
    and "map fst (assets s) = map fst (assets s0)"
    and "\<And>j. j < length (tasks s) \<Longrightarrow> committed (stage (tasks s ! j)) \<Longrightarrow>
           map_of (assets s) (tkey (tasks s ! j)) = Some (mk_asset (target (tasks s ! j)))"
    and "\<And>k. (\<forall>j < length (tasks s). committed (stage (tasks s ! j)) \<longrightarrow> tkey (tasks s ! j) \<noteq> k) \<Longrightarrow>
           map_of (assets s) k = map_of (assets s0) k"
    and "resolved s = (resolved s0 \<or>
           (\<exists>j < length (tasks s). is_last (tasks s ! j) \<and> stage (tasks s ! j) = Finished))"
    and "fetches s = fetches s0"
    and "\<And>n v. cache s n = Some v \<Longrightarrow> object_proto n = None \<and>
           (\<exists>t \<in> set (tasks s0). \<exists>e \<in> set (tags t). tname e = n \<and> tdata e = Resolved v)"
  using assms unfolding engine_inv_def cache_ok_def by blast+

lemma finished_update:
  "i < length ts \<Longrightarrow> stage (ts ! i) \<noteq> Finished \<Longrightarrow> stage t' \<noteq> Finished \<Longrightarrow>
   (\<exists>j < length (ts[i := t']). is_last (ts[i := t'] ! j) \<and> stage (ts[i := t'] ! j) = Finished)
   = (\<exists>j < length ts. is_last (ts ! j) \<and> stage (ts ! j) = Finished)"
  by (metis length_list_update nth_list_update_eq nth_list_update_neq)

lemma engine_inv_quiet_update:
  assumes inv: "engine_inv s0 s" and i: "i < length (tasks s)"
    and ti: "task_inv (tasks s0 ! i) t'"
    and nc: "\<not> committed (stage (tasks s ! i))" "\<not> committed (stage t')"
    and c: "cache_ok s0 c'"
  shows "engine_inv s0 (s\<lparr>cache := c', tasks := (tasks s)[i := t']\<rparr>)"
proof -
  let ?ts = "(tasks s)[i := t']"
  have nth: "\<And>j. ?ts ! j = (if j = i then t' else tasks s ! j)"
    using i by (simp add: nth_list_update)
  have fin: "stage (tasks s ! i) \<noteq> Finished" "stage t' \<noteq> Finished"
    using nc by (auto simp: committed_def)
  have l2: "list_all2 task_inv (tasks s0) ?ts"
    using engine_invD(1) [OF inv] i ti by (simp add: list_all2_update_right)
  have c3: "\<forall>j < length ?ts. committed (stage (?ts ! j)) \<longrightarrow>
        map_of (assets s) (tkey (?ts ! j)) = Some (mk_asset (target (?ts ! j)))"
    using engine_invD(3) [OF inv] nc by (simp add: nth)
  have c4: "\<forall>k. (\<forall>j < length ?ts. committed (stage (?ts ! j)) \<longrightarrow> tkey (?ts ! j) \<noteq> k) \<longrightarrow>
        map_of (assets s) k = map_of (assets s0) k"
  proof (intro allI impI)
    fix k
    assume H: "\<forall>j < length ?ts. committed (stage (?ts ! j)) \<longrightarrow> tkey (?ts ! j) \<noteq> k"
    have "\<forall>j < length (tasks s). committed (stage (tasks s ! j)) \<longrightarrow> tkey (tasks s ! j) \<noteq> k"
    proof (intro allI impI)
      fix j
      assume j: "j < length (tasks s)" "committed (stage (tasks s ! j))"
      with nc have "j \<noteq> i" by auto
      with H [rule_format, of j] j show "tkey (tasks s ! j) \<noteq> k" by (simp add: nth)
    qed
    then show "map_of (assets s) k = map_of (assets s0) k" by (rule engine_invD(4) [OF inv])
  qed
  have c5: "(\<exists>j < length ?ts. is_last (?ts ! j) \<and> stage (?ts ! j) = Finished)
      = (\<exists>j < length (tasks s). is_last (tasks s ! j) \<and> stage (tasks s ! j) = Finished)"
    using fin by (auto simp: nth)
  show ?thesis
    unfolding engine_inv_def
    using l2 c3 c4 c5 c engine_invD(2,5,6) [OF inv] by simp
qed


lemma substitute_inv:
  assumes inv: "engine_inv s0 s" and i: "i < length (tasks s)"
    and st: "stage (tasks s ! i) = Pending" and vs: "all_resolved (tags (tasks s ! i)) = Some vs"
  shows "engine_inv s0 (then_substitute s i vs)"
proof -
  let ?t = "tasks s ! i"
  let ?u = "tasks s0 ! i"
  obtain c' tgt err where ar: "apply_results (cache s) (target ?t) (zip (tags ?t) vs) = (c', tgt, err)"
    by (metis prod_cases3)
  let ?st = "case err of None \<Rightarrow> Substituted | Some e \<Rightarrow> Failed"
  have ti: "task_inv ?u ?t" using engine_invD(1) [OF inv] i by (rule task_inv_nth)
  have sub: "substitute_tags (target ?t) (zip (tags ?t) vs) = (case err of None \<Rightarrow> Inr tgt | Some e \<Rightarrow> Inl e)"
    using ar by (rule apply_results_target)
  have ti': "task_inv ?u (?t\<lparr>target := tgt, stage := ?st\<rparr>)"
    using ti st vs sub
    by (cases err) (auto simp: task_inv_def outcome_def subst_outcome_def committed_def)
  have c: "cache_ok s0 c'"
    unfolding cache_ok_def
  proof (intro allI impI)
    fix n v
    assume "c' n = Some v"
    moreover have "\<forall>m. cache s m \<noteq> None \<longrightarrow> object_proto m = None"
      using engine_invD(7) [OF inv] by blast
    ultimately have d: "cache s n = Some v \<or>
        (object_proto n = None \<and> (\<exists>(e, v') \<in> set (zip (tags ?t) vs). tname e = n \<and> v' = v))"
      using apply_results_cache [of "cache s" "target ?t" "zip (tags ?t) vs" n v] ar by simp
    have u: "?u \<in> set (tasks s0)"
      using i list_all2_lengthD [OF engine_invD(1) [OF inv]] by simp
    from d show "object_proto n = None \<and>
        (\<exists>t \<in> set (tasks s0). \<exists>e \<in> set (tags t). tname e = n \<and> tdata e = Resolved v)"
    proof
      assume "cache s n = Some v"
      then show ?thesis by (rule engine_invD(7) [OF inv])
    next
      assume "object_proto n = None \<and> (\<exists>(e, v') \<in> set (zip (tags ?t) vs). tname e = n \<and> v' = v)"
      then obtain e where o: "object_proto n = None" and e: "(e, v) \<in> set (zip (tags ?t) vs)" "tname e = n"
        by auto
      from all_resolved_zip [OF vs e(1)] have "e \<in> set (tags ?t)" "tdata e = Resolved v" by auto
      moreover have "tags ?t = tags ?u" using ti by (simp add: task_inv_def)
      ultimately show ?thesis using u e(2) o by (metis (no_types, lifting))
    qed
  qed
  have "engine_inv s0 (s\<lparr>cache := c', tasks := (tasks s)[i := ?t\<lparr>target := tgt, stage := ?st\<rparr>]\<rparr>)"
    using inv i ti' c st by (intro engine_inv_quiet_update) (simp_all add: committed_def split: option.split)
  with ar show ?thesis by (simp add: engine_defs Let_def)
qed

lemma reject_inv:
  assumes inv: "engine_inv s0 s" and i: "i < length (tasks s)"
    and st: "stage (tasks s ! i) = Pending" and none: "all_resolved (tags (tasks s ! i)) = None"
  shows "engine_inv s0 (then_reject s i)"
proof -
  have ti: "task_inv (tasks s0 ! i) (tasks s ! i)" using engine_invD(1) [OF inv] i by (rule task_inv_nth)
  then have ti': "task_inv (tasks s0 ! i) ((tasks s ! i)\<lparr>stage := Failed\<rparr>)"
    using st none by (simp add: task_inv_def outcome_def subst_outcome_def committed_def)
  have "engine_inv s0 (s\<lparr>cache := cache s, tasks := (tasks s)[i := (tasks s ! i)\<lparr>stage := Failed\<rparr>]\<rparr>)"
    using inv i ti' st inv [unfolded engine_inv_def]
    by (intro engine_inv_quiet_update) (simp_all add: committed_def)
  then show ?thesis by (simp add: engine_defs)
qed

lemma launched_key:
  "launched s0 \<Longrightarrow> i < length (tasks s0) \<Longrightarrow> tkey (tasks s0 ! i) \<in> set (map fst (assets s0))"
  by (simp add: launched_def list_all_length)

lemma commit_inv:
  assumes inv: "engine_inv s0 s" and l: "launched s0" and i: "i < length (tasks s)"
    and st: "stage (tasks s ! i) = Substituted"
  shows "engine_inv s0 (then_commit s i)"
proof -
  let ?t = "tasks s ! i"
  let ?u = "tasks s0 ! i"
  let ?ts = "(tasks s)[i := ?t\<lparr>stage := Committed\<rparr>]"
  let ?as = "AList.update (tkey ?t) (mk_asset (target ?t)) (assets s)"
  have l2: "list_all2 task_inv (tasks s0) (tasks s)" by (rule engine_invD(1) [OF inv])
  have len: "length (tasks s0) = length (tasks s)" using l2 by (rule list_all2_lengthD)
  have ti: "task_inv ?u ?t" using l2 i by (rule task_inv_nth)
  have nth: "\<And>j. ?ts ! j = (if j = i then ?t\<lparr>stage := Committed\<rparr> else tasks s ! j)"
    using i by (simp add: nth_list_update)
  have keys: "map tkey (tasks s) = map tkey (tasks s0)" using l2 by (rule task_inv_keys)
  have dist: "distinct (map tkey (tasks s))" using l keys by (simp add: launched_def)
  have kin: "tkey ?t \<in> set (map fst (assets s))"
    using launched_key [OF l, of i] i len ti engine_invD(2) [OF inv] by (simp add: task_inv_def)
  have map_as: "map_of ?as = (map_of (assets s))(tkey ?t \<mapsto> mk_asset (target ?t))"
    by (rule update_conv')
  have l2': "list_all2 task_inv (tasks s0) ?ts"
    using l2 i ti st by (intro list_all2_update_right) (simp_all add: task_inv_def committed_def)
  have c2: "map fst ?as = map fst (assets s0)"
    using kin engine_invD(2) [OF inv] by (simp add: map_fst_update_existing)
  have c3: "\<forall>j < length ?ts. committed (stage (?ts ! j)) \<longrightarrow>
        map_of ?as (tkey (?ts ! j)) = Some (mk_asset (target (?ts ! j)))"
  proof (intro allI impI)
    fix j
    assume j: "j < length ?ts" "committed (stage (?ts ! j))"
    show "map_of ?as (tkey (?ts ! j)) = Some (mk_asset (target (?ts ! j)))"
    proof (cases "j = i")
      case False
      then have "tkey (tasks s ! j) \<noteq> tkey ?t" using distinct_tkey_neq [OF dist] i j by simp
      with False j engine_invD(3) [OF inv, of j] show ?thesis by (simp add: nth map_as)
    qed (simp add: nth map_as)
  qed
  have c4: "\<forall>k. (\<forall>j < length ?ts. committed (stage (?ts ! j)) \<longrightarrow> tkey (?ts ! j) \<noteq> k) \<longrightarrow>
        map_of ?as k = map_of (assets s0) k"
  proof (intro allI impI)
    fix k
    assume H: "\<forall>j < length ?ts. committed (stage (?ts ! j)) \<longrightarrow> tkey (?ts ! j) \<noteq> k"
    then have ki: "tkey ?t \<noteq> k" using i by (auto simp: nth committed_def)
    have "\<forall>j < length (tasks s). committed (stage (tasks s ! j)) \<longrightarrow> tkey (tasks s ! j) \<noteq> k"
    proof (intro allI impI)
      fix j
      assume j: "j < length (tasks s)" "committed (stage (tasks s ! j))"
      with st have "j \<noteq> i" by (auto simp: committed_def)
      with H [rule_format, of j] j show "tkey (tasks s ! j) \<noteq> k" by (simp add: nth)
    qed
    with ki engine_invD(4) [OF inv] show "map_of ?as k = map_of (assets s0) k"
      by (simp add: map_as)
  qed
  have c5: "(\<exists>j < length ?ts. is_last (?ts ! j) \<and> stage (?ts ! j) = Finished)
      = (\<exists>j < length (tasks s). is_last (tasks s ! j) \<and> stage (tasks s ! j) = Finished)"
    using finished_update [of i "tasks s" "?t\<lparr>stage := Committed\<rparr>"] i st by simp
  show ?thesis
    unfolding then_commit_def Let_def engine_inv_def
    using l2' c2 c3 c4 c5 engine_invD(5,6,7) [OF inv] by (simp add: cache_ok_def)
qed

lemma finish_inv:
  assumes inv: "engine_inv s0 s" and i: "i < length (tasks s)"
    and st: "stage (tasks s ! i) = Committed"
  shows "engine_inv s0 (then_resolve s i)"
proof -
  let ?t = "tasks s ! i"
  let ?u = "tasks s0 ! i"
  let ?ts = "(tasks s)[i := ?t\<lparr>stage := Finished\<rparr>]"
  have l2: "list_all2 task_inv (tasks s0) (tasks s)" by (rule engine_invD(1) [OF inv])
  have ti: "task_inv ?u ?t" using l2 i by (rule task_inv_nth)
  have nth: "\<And>j. ?ts ! j = (if j = i then ?t\<lparr>stage := Finished\<rparr> else tasks s ! j)"
    using i by (simp add: nth_list_update)
  have l2': "list_all2 task_inv (tasks s0) ?ts"
    using l2 i ti st by (intro list_all2_update_right) (simp_all add: task_inv_def committed_def)
  have c3: "\<forall>j < length ?ts. committed (stage (?ts ! j)) \<longrightarrow>
        map_of (assets s) (tkey (?ts ! j)) = Some (mk_asset (target (?ts ! j)))"
    using engine_invD(3) [OF inv] i st by (auto simp: nth committed_def)
  have c4: "\<forall>k. (\<forall>j < length ?ts. committed (stage (?ts ! j)) \<longrightarrow> tkey (?ts ! j) \<noteq> k) \<longrightarrow>
        map_of (assets s) k = map_of (assets s0) k"
  proof (intro allI impI)
    fix k
    assume H: "\<forall>j < length ?ts. committed (stage (?ts ! j)) \<longrightarrow> tkey (?ts ! j) \<noteq> k"
    have "\<forall>j < length (tasks s). committed (stage (tasks s ! j)) \<longrightarrow> tkey (tasks s ! j) \<noteq> k"
    proof (intro allI impI)
      fix j
      assume j: "j < length (tasks s)" "committed (stage (tasks s ! j))"
      with H [rule_format, of j] st show "tkey (tasks s ! j) \<noteq> k"
        by (cases "j = i") (simp_all add: nth committed_def)
    qed
    then show "map_of (assets s) k = map_of (assets s0) k" by (rule engine_invD(4) [OF inv])
  qed
  have c5: "(resolved s \<or> is_last ?t) = (resolved s0 \<or>
      (\<exists>j < length ?ts. is_last (?ts ! j) \<and> stage (?ts ! j) = Finished))"
    using engine_invD(5) [OF inv] i by (auto simp: nth)
  show ?thesis
    unfolding then_resolve_def Let_def engine_inv_def
    using l2' c3 c4 c5 engine_invD(2,6,7) [OF inv] by (simp add: cache_ok_def)
qed

lemma chain_step_inv:
  "chain_step s s' \<Longrightarrow> engine_inv s0 s \<Longrightarrow> launched s0 \<Longrightarrow> engine_inv s0 s'"
  by (induction rule: chain_step.induct)
    (simp_all add: substitute_inv reject_inv commit_inv finish_inv)


subsection \<open>Reachable states\<close>

lemma launched_replace_assets:
  assumes "distinct (map fst as)"
  shows "launched (replace_assets ds as)"
proof -
  have mt: "map tkey (tasks (replace_assets ds as)) = map fst (filter (\<lambda>(k, a). is_html k) as)"
    by (induction as) (auto simp: replace_assets_tasks)
  have "distinct (map fst (filter (\<lambda>(k, a). is_html k) as))"
    using assms by (rule distinct_map_filter)
  then have d: "distinct (map tkey (tasks (replace_assets ds as)))" by (simp only: mt)
  have p: "list_all (\<lambda>t. stage t = Pending \<and> tkey t \<in> set (map fst as)) (tasks (replace_assets ds as))"
    by (force simp: replace_assets_tasks list_all_iff)
  from d p show ?thesis by (simp add: launched_def)
qed

lemma engine_inv_init: "launched s0 \<Longrightarrow> engine_inv s0 s0"
  by (auto simp: engine_inv_def launched_def list_all2_conv_all_nth list_all_length
      task_inv_def committed_def cache_ok_def)

lemma reachable_inv:
  assumes "reachable ds as s" and "distinct (map fst as)"
  shows "engine_inv (replace_assets ds as) s"
proof -
  have l: "launched (replace_assets ds as)" using assms(2) by (rule launched_replace_assets)
  have "chain_step\<^sup>*\<^sup>* (replace_assets ds as) s" using assms(1) by (simp add: reachable_def)
  then show ?thesis
  proof (induction rule: rtranclp_induct)
    case base
    show ?case using l by (rule engine_inv_init)
  next
    case (step s s')
    then show ?case using l by (blast intro: chain_step_inv)
  qed
qed

end
