(* ===== verification/Runs.thy ===== *)
theory Runs
  imports Chains
begin

text \<open>
  Runs of the microtask phase.  \<open>drain\<close> is one schedule (each chain run to
  its end, in launch order); it is a run of \<open>chain_step\<close> and ends in a state
  where no continuation is left.  Every state with no continuation left is
  \<open>final\<close>, and the invariant of theory \<open>Chains\<close> fixes the assets and the
  completion flag of every final reachable state: all schedules agree.  Every
  step lowers \<open>work\<close>, the number of continuations left, so every
  interleaving is finite and every state reaches a final one.
  \<open>injected ds a\<close> is what a successful chain writes for asset \<open>a\<close>.
\<close>

definition fresh_tags :: "datasource \<Rightarrow> asset \<Rightarrow> tag_entry list" where
  "fresh_tags ds a = map (\<lambda>(t, n). \<lparr>tag = t, tname = n, tdata = initial_data ds n\<rparr>) (match_all (source a))"

definition injected :: "datasource \<Rightarrow> asset \<Rightarrow> asset option" where
  "injected ds a =
     map_option mk_asset (subst_outcome (source a) (fresh_tags ds a))"

text \<open>The continuations a chain still has to run, by stage; \<open>work\<close> sums
  them over the chains and decreases with every step.\<close>

fun steps_left :: "stage \<Rightarrow> nat" where
  "steps_left Pending = 3"
| "steps_left Substituted = 2"
| "steps_left Committed = 1"
| "steps_left Finished = 0"
| "steps_left Failed = 0"

definition work :: "engine \<Rightarrow> nat" where
  "work s = sum_list (map (\<lambda>t. steps_left (stage t)) (tasks s))"

lemma apply_results_snd: "snd (apply_results c t rs) = snd (apply_results c' t rs)"
proof (induction c t rs arbitrary: c' rule: apply_results.induct)
  case (2 c t e v rs)
  show ?case
    by (cases "js_replace t (tag e) v") (simp_all add: Let_def "2.IH" [OF refl])
qed simp

text \<open>The target and the failure of the first \<open>then\<close>, which do not depend on
  the cache.\<close>

definition subst_result :: "task \<Rightarrow> jsval list \<Rightarrow> string \<times> js_error option" where
  "subst_result t vs = snd (apply_results Map.empty (target t) (zip (tags t) vs))"

lemma handler_tasks:
  "tasks (then_substitute s i vs) = (tasks s)[i := (tasks s ! i)\<lparr>target := fst (subst_result (tasks s ! i) vs),
      stage := (case snd (subst_result (tasks s ! i) vs) of None \<Rightarrow> Substituted | Some e \<Rightarrow> Failed)\<rparr>]"
  "tasks (then_reject s i) = (tasks s)[i := (tasks s ! i)\<lparr>stage := Failed\<rparr>]"
  "tasks (then_commit s i) = (tasks s)[i := (tasks s ! i)\<lparr>stage := Committed\<rparr>]"
  "tasks (then_resolve s i) = (tasks s)[i := (tasks s ! i)\<lparr>stage := Finished\<rparr>]"
proof -
  obtain c' tgt err where ar: "apply_results (cache s) (target (tasks s ! i)) (zip (tags (tasks s ! i)) vs) =
      (c', tgt, err)"
    by (metis prod_cases3)
  moreover have "subst_result (tasks s ! i) vs = (tgt, err)"
    using apply_results_snd [of "cache s" _ _ Map.empty] ar by (metis snd_conv subst_result_def)
  ultimately show "tasks (then_substitute s i vs) = (tasks s)[i := (tasks s ! i)\<lparr>target := fst (subst_result (tasks s ! i) vs),
      stage := (case snd (subst_result (tasks s ! i) vs) of None \<Rightarrow> Substituted | Some e \<Rightarrow> Failed)\<rparr>]"
    by (simp add: engine_defs Let_def)
qed (simp_all add: engine_defs Let_def)

lemma run_task_tasks:
  "length (tasks (run_task s i)) = length (tasks s) \<and>
   (\<forall>j. j \<noteq> i \<longrightarrow> tasks (run_task s i) ! j = tasks s ! j)"
  by (simp add: run_task_def handler_tasks Let_def split: option.split)

lemma run_task_nth:
  "i < length (tasks s) \<Longrightarrow> tasks (run_task s i) ! i =
     (case all_resolved (tags (tasks s ! i)) of
        None \<Rightarrow> (tasks s ! i)\<lparr>stage := Failed\<rparr>
      | Some vs \<Rightarrow> (tasks s ! i)\<lparr>target := fst (subst_result (tasks s ! i) vs),
          stage := (case snd (subst_result (tasks s ! i) vs) of None \<Rightarrow> Finished | Some e \<Rightarrow> Failed)\<rparr>)"
  by (simp add: run_task_def handler_tasks Let_def split: option.split)

lemma run_task_stage:
  "i < length (tasks s) \<Longrightarrow>
   stage (tasks (run_task s i) ! i) = Finished \<or> stage (tasks (run_task s i) ! i) = Failed"
  by (simp add: run_task_nth split: option.split)

lemma run_task_steps:
  assumes i: "i < length (tasks s)" and st: "stage (tasks s ! i) = Pending"
  shows "chain_step\<^sup>*\<^sup>* s (run_task s i)"
proof (cases "all_resolved (tags (tasks s ! i))")
  case None
  then have "chain_step s (then_reject s i)" using i st by (rule chain_step.reject [rotated 2])
  with None show ?thesis by (simp add: run_task_def)
next
  case (Some vs)
  let ?s1 = "then_substitute s i vs"
  let ?s2 = "then_commit ?s1 i"
  have 1: "chain_step s ?s1" using i st Some by (rule chain_step.substitute)
  show ?thesis
  proof (cases "stage (tasks ?s1 ! i) = Failed")
    case True
    with 1 Some show ?thesis by (simp add: run_task_def)
  next
    case False
    then have sub: "stage (tasks ?s1 ! i) = Substituted"
      using i by (simp add: handler_tasks split: option.splits)
    have 2: "chain_step ?s1 ?s2" using i sub by (intro chain_step.commit) (simp_all add: handler_tasks)
    have 3: "chain_step ?s2 (then_resolve ?s2 i)" using i by (intro chain_step.finish) (simp_all add: handler_tasks)
    from 1 2 3 Some False show ?thesis
      by (simp add: run_task_def Let_def)
  qed
qed

lemma fold_run_task:
  assumes "\<forall>j \<in> set js. j < length (tasks s) \<and> stage (tasks s ! j) = Pending" and "distinct js"
  shows "chain_step\<^sup>*\<^sup>* s (fold (\<lambda>i s. run_task s i) js s) \<and>
    length (tasks (fold (\<lambda>i s. run_task s i) js s)) = length (tasks s) \<and>
    (\<forall>j < length (tasks s). tasks (fold (\<lambda>i s. run_task s i) js s) ! j =
       (if j \<in> set js then tasks (run_task s j) ! j else tasks s ! j))"
  using assms
proof (induction js arbitrary: s)
  case Nil
  then show ?case by simp
next
  case (Cons i js)
  let ?s1 = "run_task s i"
  have fr: "length (tasks ?s1) = length (tasks s)" "\<And>j. j \<noteq> i \<Longrightarrow> tasks ?s1 ! j = tasks s ! j"
    using run_task_tasks [of s i] by simp_all
  have pre: "\<forall>j \<in> set js. j < length (tasks ?s1) \<and> stage (tasks ?s1 ! j) = Pending"
  proof
    fix j
    assume j: "j \<in> set js"
    then have "j \<noteq> i" using Cons.prems(2) by auto
    with j Cons.prems(1) fr show "j < length (tasks ?s1) \<and> stage (tasks ?s1 ! j) = Pending"
      by auto
  qed
  have IH: "chain_step\<^sup>*\<^sup>* ?s1 (fold (\<lambda>i s. run_task s i) js ?s1) \<and>
    length (tasks (fold (\<lambda>i s. run_task s i) js ?s1)) = length (tasks ?s1) \<and>
    (\<forall>j < length (tasks ?s1). tasks (fold (\<lambda>i s. run_task s i) js ?s1) ! j =
       (if j \<in> set js then tasks (run_task ?s1 j) ! j else tasks ?s1 ! j))"
    using pre Cons.prems(2) by (intro Cons.IH) simp_all
  have st1: "chain_step\<^sup>*\<^sup>* s ?s1" using Cons.prems by (intro run_task_steps) simp_all
  have same: "\<And>j. j \<in> set js \<Longrightarrow> tasks (run_task ?s1 j) ! j = tasks (run_task s j) ! j"
  proof -
    fix j
    assume j: "j \<in> set js"
    then have "j \<noteq> i" using Cons.prems(2) by auto
    then have "tasks ?s1 ! j = tasks s ! j" by (rule fr(2))
    moreover have "j < length (tasks s)" using j Cons.prems(1) by simp
    ultimately show "tasks (run_task ?s1 j) ! j = tasks (run_task s j) ! j"
      using run_task_nth [of j ?s1] run_task_nth [of j s] fr(1) by (simp cong: option.case_cong)
  qed
  show ?case
  proof (intro conjI allI impI)
    show "chain_step\<^sup>*\<^sup>* s (fold (\<lambda>i s. run_task s i) (i # js) s)"
      using st1 IH by (simp add: rtranclp_trans [of chain_step s ?s1])
    show "length (tasks (fold (\<lambda>i s. run_task s i) (i # js) s)) = length (tasks s)"
      using IH fr by simp
  next
    fix j
    assume "j < length (tasks s)"
    then show "tasks (fold (\<lambda>i s. run_task s i) (i # js) s) ! j =
      (if j \<in> set (i # js) then tasks (run_task s j) ! j else tasks s ! j)"
      using IH fr same Cons.prems(2) by auto
  qed
qed

lemma drain_run:
  assumes "launched s0"
  shows "chain_step\<^sup>*\<^sup>* s0 (drain s0) \<and> length (tasks (drain s0)) = length (tasks s0) \<and>
    (\<forall>j < length (tasks s0). tasks (drain s0) ! j = tasks (run_task s0 j) ! j)"
proof -
  have "\<forall>j \<in> set [0..<length (tasks s0)]. j < length (tasks s0) \<and> stage (tasks s0 ! j) = Pending"
    using assms by (simp add: launched_def list_all_length)
  from fold_run_task [OF this] show ?thesis by (simp add: drain_def)
qed

lemma drain_final: "launched s0 \<Longrightarrow> final (drain s0)"
  using drain_run [of s0]
  by (auto simp: final_def list_all_length run_task_stage)

lemma final_iff_stuck: "final s \<longleftrightarrow> (\<nexists>u. chain_step s u)"
proof
  assume "final s"
  then show "\<nexists>u. chain_step s u"
    by (auto simp: final_def list_all_length elim!: chain_step.cases)
next
  assume stuck: "\<nexists>u. chain_step s u"
  show "final s"
    unfolding final_def list_all_length
  proof (intro allI impI)
    fix j
    assume j: "j < length (tasks s)"
    show "stage (tasks s ! j) = Finished \<or> stage (tasks s ! j) = Failed"
    proof (cases "stage (tasks s ! j)")
      case Pending
      then show ?thesis
        using stuck j chain_step.substitute [of j s] chain_step.reject [of j s]
        by (cases "all_resolved (tags (tasks s ! j))") blast+
    next
      case Substituted
      then show ?thesis using stuck j chain_step.commit [of j s] by blast
    next
      case Committed
      then show ?thesis using stuck j chain_step.finish [of j s] by blast
    qed simp_all
  qed
qed

lemma final_stage:
  assumes inv: "engine_inv s0 s" and fin: "final s" and j: "j < length (tasks s)"
  shows "stage (tasks s ! j) = (if outcome (tasks s0 ! j) = None then Failed else Finished)"
proof -
  have "task_inv (tasks s0 ! j) (tasks s ! j)" using engine_invD(1) [OF inv] j by (rule task_inv_nth)
  moreover have "stage (tasks s ! j) = Finished \<or> stage (tasks s ! j) = Failed"
    using fin j by (simp add: final_def list_all_length)
  ultimately show ?thesis by (auto simp: task_inv_def committed_def)
qed

lemma final_assets_done:
  assumes inv: "engine_inv s0 s" and fin: "final s" and j: "j < length (tasks s0)"
    and ok: "outcome (tasks s0 ! j) = Some x"
  shows "map_of (assets s) (tkey (tasks s0 ! j)) = Some (mk_asset x)"
proof -
  have len: "length (tasks s0) = length (tasks s)" using engine_invD(1) [OF inv] by (rule list_all2_lengthD)
  have ti: "task_inv (tasks s0 ! j) (tasks s ! j)" using engine_invD(1) [OF inv] j len by (simp add: task_inv_nth)
  have "stage (tasks s ! j) = Finished" using final_stage [OF inv fin, of j] j len ok by simp
  with ti engine_invD(3) [OF inv, of j] j len ok show ?thesis
    by (simp add: committed_def task_inv_def)
qed

lemma final_assets_kept:
  assumes inv: "engine_inv s0 s" and fin: "final s"
    and none: "\<forall>j < length (tasks s0). tkey (tasks s0 ! j) = k \<longrightarrow> outcome (tasks s0 ! j) = None"
  shows "map_of (assets s) k = map_of (assets s0) k"
proof (rule engine_invD(4) [OF inv], intro allI impI)
  fix j
  assume j: "j < length (tasks s)" and c: "committed (stage (tasks s ! j))"
  have len: "length (tasks s0) = length (tasks s)" using engine_invD(1) [OF inv] by (rule list_all2_lengthD)
  have "tkey (tasks s ! j) = tkey (tasks s0 ! j)"
    using task_inv_nth [OF engine_invD(1) [OF inv] j] by (simp add: task_inv_def)
  moreover have "outcome (tasks s0 ! j) \<noteq> None"
    using final_stage [OF inv fin j] c by (auto simp: committed_def split: if_splits)
  ultimately show "tkey (tasks s ! j) \<noteq> k" using none j len by auto
qed

lemma final_resolved:
  assumes inv: "engine_inv s0 s" and fin: "final s"
  shows "resolved s = (resolved s0 \<or>
    (\<exists>j < length (tasks s0). is_last (tasks s0 ! j) \<and> outcome (tasks s0 ! j) \<noteq> None))"
proof -
  have len: "length (tasks s0) = length (tasks s)" using engine_invD(1) [OF inv] by (rule list_all2_lengthD)
  have "\<And>j. j < length (tasks s) \<Longrightarrow> is_last (tasks s ! j) = is_last (tasks s0 ! j)"
    using task_inv_nth [OF engine_invD(1) [OF inv]] by (simp add: task_inv_def)
  with engine_invD(5) [OF inv] final_stage [OF inv fin] len show ?thesis
    by auto
qed

lemma alist_eqI:
  assumes keys: "map fst xs = map fst ys" and d: "distinct (map fst xs)" and m: "map_of xs = map_of ys"
  shows "xs = ys"
proof (rule nth_equalityI)
  show len: "length xs = length ys" using keys by (metis length_map)
  fix i
  assume i: "i < length xs"
  have k: "fst (xs ! i) = fst (ys ! i)" using keys i len by (metis nth_map)
  have "map_of xs (fst (xs ! i)) = Some (snd (xs ! i))"
    using d i by (intro map_of_is_SomeI) simp_all
  moreover have "map_of ys (fst (ys ! i)) = Some (snd (ys ! i))"
    using d keys i len by (intro map_of_is_SomeI) (metis, simp)
  ultimately have "snd (xs ! i) = snd (ys ! i)" using k m by simp
  with k show "xs ! i = ys ! i" by (simp add: prod_eq_iff)
qed

subsection \<open>Chains and asset entries\<close>

lemma initial_task_set:
  "t \<in> set (tasks (replace_assets ds as)) \<longleftrightarrow>
   (\<exists>(k, a) \<in> set as. is_html k \<and>
      t = \<lparr>tkey = k, target = source a, tags = fresh_tags ds a, is_last = (k = fst (last as)),
           stage = Pending\<rparr>)"
  by (auto simp: replace_assets_tasks fresh_tags_def)

lemma initial_task_entry:
  assumes "t \<in> set (tasks (replace_assets ds as))"
  obtains a where "(tkey t, a) \<in> set as" "is_html (tkey t)" "target t = source a"
    "tags t = fresh_tags ds a" "is_last t = (tkey t = fst (last as))" "stage t = Pending"
  using assms by (auto simp: initial_task_set)

lemma entry_initial_task:
  assumes "(k, a) \<in> set as" and "is_html k"
  shows "\<lparr>tkey = k, target = source a, tags = fresh_tags ds a, is_last = (k = fst (last as)),
           stage = Pending\<rparr> \<in> set (tasks (replace_assets ds as))"
  using assms by (auto simp: initial_task_set)

lemma outcome_injected:
  "injected ds a = map_option mk_asset (outcome \<lparr>tkey = k, target = source a, tags = fresh_tags ds a,
                                                 is_last = l, stage = st\<rparr>)"
  by (simp add: injected_def outcome_def)

lemma distinct_key_value:
  "distinct (map fst as) \<Longrightarrow> (k, a) \<in> set as \<Longrightarrow> (k, b) \<in> set as \<Longrightarrow> a = b"
  by (metis eq_key_imp_eq_value)

subsection \<open>The outcome of a finished run\<close>

lemma initial_keys:
  "t \<in> set (tasks (replace_assets ds as)) \<Longrightarrow> tkey t \<in> fst ` set as \<and> is_html (tkey t)"
  by (erule initial_task_entry) (metis fst_conv image_eqI)

lemma initial_task_of_key:
  assumes d: "distinct (map fst as)" and t: "t \<in> set (tasks (replace_assets ds as))"
    and a: "(tkey t, a) \<in> set as"
  shows "target t = source a \<and> tags t = fresh_tags ds a"
proof -
  obtain b where "(tkey t, b) \<in> set as" "target t = source b" "tags t = fresh_tags ds b"
    using t by (rule initial_task_entry)
  with distinct_key_value [OF d a] show ?thesis by simp
qed

lemma final_outcome_assets:
  assumes inv: "engine_inv (replace_assets ds as) s" and fin: "final s" and d: "distinct (map fst as)"
  shows "map_of (assets s) k =
    (case map_of as k of
       None \<Rightarrow> None
     | Some a \<Rightarrow> if is_html k then (case injected ds a of None \<Rightarrow> Some a | Some a' \<Rightarrow> Some a') else Some a)"
proof -
  let ?s0 = "replace_assets ds as"
  let ?T = "tasks ?s0"
  have kept: "map_of (assets s) k = map_of as k"
    if none: "\<forall>j < length ?T. tkey (?T ! j) = k \<longrightarrow> outcome (?T ! j) = None"
    using final_assets_kept [OF inv fin none] by simp
  show ?thesis
  proof (cases "map_of as k")
    case None
    then have "\<forall>j < length ?T. tkey (?T ! j) \<noteq> k"
      using initial_keys [of _ ds as] by (metis map_of_eq_None_iff nth_mem)
    with None kept show ?thesis by simp
  next
    case (Some a)
    then have ka: "(k, a) \<in> set as" by (rule map_of_SomeD)
    have out_k: "\<And>j. j < length ?T \<Longrightarrow> tkey (?T ! j) = k \<Longrightarrow>
        outcome (?T ! j) = subst_outcome (source a) (fresh_tags ds a)"
      using initial_task_of_key [OF d] ka by (metis nth_mem outcome_def)
    show ?thesis
    proof (cases "is_html k")
      case False
      then have "\<forall>j < length ?T. tkey (?T ! j) \<noteq> k"
        using initial_keys [of _ ds as] by (metis nth_mem)
      with False Some kept show ?thesis by simp
    next
      case True
      let ?t = "\<lparr>tkey = k, target = source a, tags = fresh_tags ds a, is_last = (k = fst (last as)),
                 stage = Pending\<rparr>"
      have "?t \<in> set ?T" using ka True by (rule entry_initial_task)
      then obtain j where j: "j < length ?T" "?T ! j = ?t" by (metis in_set_conv_nth)
      show ?thesis
      proof (cases "subst_outcome (source a) (fresh_tags ds a)")
        case None
        with out_k have "\<forall>j < length ?T. tkey (?T ! j) = k \<longrightarrow> outcome (?T ! j) = None"
          by simp
        with kept None Some True show ?thesis by (simp add: injected_def)
      next
        case (Some x)
        have "map_of (assets s) (tkey (?T ! j)) = Some (mk_asset x)"
          using final_assets_done [OF inv fin j(1)] j Some by (simp add: outcome_def)
        with j Some \<open>map_of as k = Some a\<close> True show ?thesis
          by (simp add: injected_def)
      qed
    qed
  qed
qed

lemma final_outcome_resolved:
  assumes inv: "engine_inv (replace_assets ds as) s" and fin: "final s" and d: "distinct (map fst as)"
  shows "resolved s \<longleftrightarrow> as \<noteq> [] \<and> (\<not> is_html (fst (last as)) \<or> injected ds (snd (last as)) \<noteq> None)"
proof -
  let ?s0 = "replace_assets ds as"
  let ?T = "tasks ?s0"
  have r: "resolved s = (resolved ?s0 \<or>
      (\<exists>t \<in> set ?T. is_last t \<and> outcome t \<noteq> None))"
    using final_resolved [OF inv fin] by (metis in_set_conv_nth)
  show ?thesis
  proof (cases "as = []")
    case True
    then show ?thesis using r by (simp add: replace_assets_tasks replace_assets_resolved)
  next
    case ne: False
    have last_in: "(fst (last as), snd (last as)) \<in> set as" using ne by simp
    have lastt: "(\<exists>t \<in> set ?T. is_last t \<and> outcome t \<noteq> None) \<longleftrightarrow>
        is_html (fst (last as)) \<and> injected ds (snd (last as)) \<noteq> None"
    proof
      assume "\<exists>t \<in> set ?T. is_last t \<and> outcome t \<noteq> None"
      then obtain t where t: "t \<in> set ?T" "is_last t" "outcome t \<noteq> None" by blast
      obtain a where a: "(tkey t, a) \<in> set as" "is_html (tkey t)" "target t = source a"
        "tags t = fresh_tags ds a" "is_last t = (tkey t = fst (last as))"
        using t(1) by (rule initial_task_entry)
      have "a = snd (last as)" using a t(2) distinct_key_value [OF d _ last_in] by simp
      with a t show "is_html (fst (last as)) \<and> injected ds (snd (last as)) \<noteq> None"
        by (simp add: injected_def outcome_def)
    next
      assume h: "is_html (fst (last as)) \<and> injected ds (snd (last as)) \<noteq> None"
      let ?t = "\<lparr>tkey = fst (last as), target = source (snd (last as)), tags = fresh_tags ds (snd (last as)),
                 is_last = True, stage = Pending\<rparr>"
      have "?t \<in> set ?T" using entry_initial_task [OF last_in, of ds] h by simp
      moreover have "is_last ?t \<and> outcome ?t \<noteq> None"
        using h by (simp add: injected_def outcome_def)
      ultimately show "\<exists>t \<in> set ?T. is_last t \<and> outcome t \<noteq> None" by blast
    qed
    show ?thesis using r lastt ne by (auto simp: replace_assets_resolved)
  qed
qed

lemma drain_reachable:
  "distinct (map fst as) \<Longrightarrow> reachable ds as (drain (replace_assets ds as))"
  using drain_run [OF launched_replace_assets] by (simp add: reachable_def)

lemma drain_terminal:
  "distinct (map fst as) \<Longrightarrow> final (drain (replace_assets ds as))"
  by (rule drain_final [OF launched_replace_assets])

subsection \<open>Substitution of a single marker\<close>

lemma pieces_first_marker:
  assumes "pieces s = map Lit b @ Mark n # qs"
  shows "s = b @ marker_tag n @ render qs \<and> \<not> occurs_before (marker_tag n) s (length b)"
proof
  show s: "s = b @ marker_tag n @ render qs"
    using render_pieces_eq [of s] assms by simp
  show "\<not> occurs_before (marker_tag n) s (length b)"
  proof
    assume "occurs_before (marker_tag n) s (length b)"
    then obtain i where "i < length b" "starts_with (drop i s) (marker_tag n)"
      by (auto simp: occurs_before_iff)
    with match_at_marker_tag pieces_Mark_name [of s "map Lit b"] assms pieces_Lit_prefix
    show False by fastforce
  qed
qed

lemma injected_single:
  assumes p: "pieces (source a) = map Lit b @ Mark n # map Lit c"
    and o: "object_proto n = None" and v: "ds n = Resolved (Str v)" and nd: "CHR ''$'' \<notin> set v"
  shows "injected ds a = Some (mk_asset (b @ v @ c))"
proof -
  have m: "match_all (source a) = [(marker_tag n, n)]"
    using p by (simp add: match_all_eq_marks)
  have "source a = b @ marker_tag n @ c \<and> \<not> occurs_before (marker_tag n) (source a) (length b)"
    using pieces_first_marker [OF p, unfolded render_map_Lit] .
  then have s: "source a = b @ marker_tag n @ c" and f: "\<not> occurs_before (marker_tag n) (source a) (length b)"
    by blast+
  from js_replace_first [OF s f] get_subst_no_dollar [OF nd] m o v show ?thesis
    by (simp add: injected_def fresh_tags_def initial_data_def subst_outcome_def)
qed

text \<open>With a single marker, the chain's outcome is that of one \<open>replace\<close> of
  the marker, whatever the tag's value.\<close>

lemma single_marker_first:
  assumes "pieces (source a) = map Lit b @ Mark n # map Lit c"
  shows "source a = b @ marker_tag n @ c \<and> \<not> occurs_before (marker_tag n) (b @ marker_tag n @ c) (length b)"
proof -
  have "source a = b @ marker_tag n @ c" "\<not> occurs_before (marker_tag n) (source a) (length b)"
    using pieces_first_marker [OF assms, unfolded render_map_Lit] by blast+
  then show ?thesis by simp
qed

lemma injected_single_data:
  assumes p: "pieces (source a) = map Lit b @ Mark n # map Lit c" and v: "initial_data ds n = Resolved v"
  shows "injected ds a =
    (case js_replace (b @ marker_tag n @ c) (marker_tag n) v of Inl e \<Rightarrow> None | Inr t \<Rightarrow> Some (mk_asset t))"
proof -
  have m: "match_all (source a) = [(marker_tag n, n)]"
    using p by (simp add: match_all_eq_marks)
  have s: "source a = b @ marker_tag n @ c" using single_marker_first [OF p] by blast
  show ?thesis using m v s
    by (simp add: injected_def fresh_tags_def subst_outcome_def split: sum.split)
qed

lemma drain_assets:
  assumes d: "distinct (map fst as)"
  shows "map_of (assets (drain (replace_assets ds as))) k =
    (case map_of as k of
       None \<Rightarrow> None
     | Some a \<Rightarrow> if is_html k then (case injected ds a of None \<Rightarrow> Some a | Some a' \<Rightarrow> Some a') else Some a)"
  using final_outcome_assets [OF reachable_inv [OF drain_reachable [OF d] d] drain_terminal [OF d] d] .

subsection \<open>Termination of every interleaving\<close>

lemma sum_list_map_update_less:
  fixes f :: "'a \<Rightarrow> nat"
  shows "i < length xs \<Longrightarrow> f x < f (xs ! i) \<Longrightarrow> sum_list (map f (xs[i := x])) < sum_list (map f xs)"
proof (induction xs arbitrary: i)
  case (Cons y ys)
  then show ?case by (cases i) auto
qed simp

lemma chain_step_work: "chain_step s u \<Longrightarrow> work u < work s"
  by (induction rule: chain_step.induct)
    (auto simp: work_def engine_defs Let_def split: prod.split option.split
      intro!: sum_list_map_update_less)

lemma relpowp_work: "(chain_step ^^ n) s u \<Longrightarrow> work u + n \<le> work s"
proof (induction n arbitrary: u)
  case (Suc n)
  then obtain v where "(chain_step ^^ n) s v" "chain_step v u" by (meson relpowp_Suc_E)
  with Suc.IH chain_step_work [of v u] show ?case by fastforce
qed simp

lemma work_replace_assets:
  "work (replace_assets ds as) = 3 * length (filter (\<lambda>(k, a). is_html k) as)"
  by (induction as) (auto simp: work_def replace_assets_tasks)

lemma chain_step_wf: "wf {(u, s). chain_step s u}"
  by (rule wf_subset [OF wf_measure [of work]]) (auto dest: chain_step_work)

lemma reaches_stuck: "\<exists>u. chain_step\<^sup>*\<^sup>* s u \<and> (\<nexists>v. chain_step u v)"
using chain_step_wf
proof (induction s rule: wf_induct_rule)
  case (less s)
  show ?case
  proof (cases "\<exists>v. chain_step s v")
    case True
    then obtain v where v: "chain_step s v" by blast
    with less obtain u where "chain_step\<^sup>*\<^sup>* v u" "\<nexists>w. chain_step u w" by blast
    with v show ?thesis by (meson converse_rtranclp_into_rtranclp)
  qed blast
qed

subsection \<open>What reachable states show\<close>

lemma reachable_asset_entry:
  assumes r: "reachable ds as s" and d: "distinct (map fst as)" and a: "map_of as k = Some a"
  shows "map_of (assets s) k = Some a \<or> (is_html k \<and> map_of (assets s) k = injected ds a)"
proof -
  let ?s0 = "replace_assets ds as"
  have inv: "engine_inv ?s0 s" using r d by (rule reachable_inv)
  have l2: "list_all2 task_inv (tasks ?s0) (tasks s)" by (rule engine_invD(1) [OF inv])
  have ka: "(k, a) \<in> set as" using a by (rule map_of_SomeD)
  show ?thesis
  proof (cases "\<exists>j < length (tasks s). committed (stage (tasks s ! j)) \<and> tkey (tasks s ! j) = k")
    case True
    then obtain j where j: "j < length (tasks s)" "committed (stage (tasks s ! j))" "tkey (tasks s ! j) = k"
      by blast
    let ?t = "tasks ?s0 ! j"
    have ti: "task_inv ?t (tasks s ! j)" using l2 j(1) by (rule task_inv_nth)
    have tin: "?t \<in> set (tasks ?s0)" using j(1) list_all2_lengthD [OF l2] by simp
    have tk: "tkey ?t = k" using ti j(3) by (simp add: task_inv_def)
    have ta: "target ?t = source a \<and> tags ?t = fresh_tags ds a"
      using initial_task_of_key [OF d tin] ka tk by simp
    have st: "stage ?t = Pending" using tin by (rule initial_task_entry) simp
    have tgt: "outcome ?t = Some (target (tasks s ! j))"
      using ti j(2) by (simp add: task_inv_def)
    have "map_of (assets s) k = Some (mk_asset (target (tasks s ! j)))"
      using engine_invD(3) [OF inv j(1,2)] j(3) by simp
    moreover have "injected ds a = Some (mk_asset (target (tasks s ! j)))"
      using outcome_injected [of ds a "tkey ?t" "is_last ?t" "stage ?t"] ta tgt
      by (cases ?t) simp
    moreover have "is_html k" using initial_keys [OF tin] tk by simp
    ultimately show ?thesis by simp
  next
    case False
    then have "map_of (assets s) k = map_of as k" using engine_invD(4) [OF inv] by auto
    with a show ?thesis by simp
  qed
qed

lemma reachable_resolved:
  assumes r: "reachable ds as s" and d: "distinct (map fst as)" and res: "resolved s"
  shows "as \<noteq> [] \<and> (\<not> is_html (fst (last as)) \<or> injected ds (snd (last as)) \<noteq> None)"
proof (cases "resolved (replace_assets ds as)")
  case True
  then show ?thesis by (simp add: replace_assets_resolved)
next
  case False
  let ?s0 = "replace_assets ds as"
  have inv: "engine_inv ?s0 s" using r d by (rule reachable_inv)
  have l2: "list_all2 task_inv (tasks ?s0) (tasks s)" by (rule engine_invD(1) [OF inv])
  from False res engine_invD(5) [OF inv] obtain j where
    j: "j < length (tasks s)" "is_last (tasks s ! j)" "stage (tasks s ! j) = Finished" by auto
  let ?t = "tasks ?s0 ! j"
  have ti: "task_inv ?t (tasks s ! j)" using l2 j(1) by (rule task_inv_nth)
  have "?t \<in> set (tasks ?s0)" using j(1) list_all2_lengthD [OF l2] by simp
  then obtain a where a: "(tkey ?t, a) \<in> set as" "is_html (tkey ?t)" "target ?t = source a"
    "tags ?t = fresh_tags ds a" "is_last ?t = (tkey ?t = fst (last as))"
    by (rule initial_task_entry)
  have ne: "as \<noteq> []" using a(1) by auto
  then have "(fst (last as), snd (last as)) \<in> set as" by simp
  with a ti j(2) distinct_key_value [OF d] have "a = snd (last as)" "tkey ?t = fst (last as)"
    by (simp_all add: task_inv_def)
  moreover have "outcome ?t \<noteq> None" using ti j(3) by (simp add: task_inv_def committed_def)
  ultimately show ?thesis using a ne by (simp add: injected_def outcome_def)
qed

lemma injected_first_throws:
  assumes p: "pieces (source a) = map Lit b @ Mark n # ps"
    and o: "object_proto n = Some (Builtin f)" and t: "call_replacer f (marker_tag n) = Inl e"
  shows "injected ds a = None"
proof -
  have m: "match_all (source a) = (marker_tag n, n) # marks ps"
    using p by (simp add: match_all_eq_marks)
  have "source a = b @ marker_tag n @ render ps \<and> \<not> occurs_before (marker_tag n) (source a) (length b)"
    using pieces_first_marker [OF p] .
  then have s: "source a = b @ marker_tag n @ render ps"
    and f: "\<not> occurs_before (marker_tag n) (source a) (length b)" by blast+
  have "js_replace (source a) (marker_tag n) (Builtin f) = Inl e"
    using js_replace_call [OF s f] t by simp
  then show ?thesis using m o
    by (auto simp: injected_def subst_outcome_def fresh_tags_def initial_data_def
        split: option.split fetch_result.split)
qed

lemma injected_rejected:
  assumes "n \<in> set (map snd (match_all (source a)))" and "object_proto n = None" and "ds n = Rejected"
  shows "injected ds a = None"
proof -
  have "all_resolved (fresh_tags ds a) = None"
    using assms by (force simp: all_resolved_None_iff fresh_tags_def initial_data_def)
  then show ?thesis by (simp add: injected_def subst_outcome_def)
qed

end
