(* ===== verification/Refinement.thy ===== *)
theory Refinement
  imports Runs
begin

text \<open>
  An abstract specification of what \<open>replaceAssets\<close> does to the asset object
  and to its promise, and the refinement of it by the model of the code.  The
  abstract state (\<open>spec_state\<close>) is the asset list, the set of keys already
  rewritten and the completion flag.  An abstract step either rewrites an HTML
  asset not rewritten yet with its full substitution (\<open>injected\<close>), or, once
  the last key has been rewritten, signals completion; the initial abstract
  state (\<open>spec_init\<close>) is already complete when the last key is not an HTML
  file, because the synchronous loop resolves at once in that case.  The
  specification thus records the code's completion rule, including that early
  completion; it does not require P5.  \<open>abs_state\<close> maps an
  engine state to it: the keys of committed chains are the rewritten ones.
  Every step of \<open>chain_step\<close> from a reachable state is an abstract step or
  leaves the abstract state unchanged (\<open>chain_step_abs\<close>), so every reachable
  state is the image of a run of the specification.
\<close>

record spec_state =
  sp_assets :: "(key \<times> asset) list"
  sp_done :: "key set"
  sp_resolved :: bool

definition spec_init :: "(key \<times> asset) list \<Rightarrow> spec_state" where
  "spec_init as = \<lparr>sp_assets = as, sp_done = {}, sp_resolved = (as \<noteq> [] \<and> \<not> is_html (fst (last as)))\<rparr>"

inductive spec_step :: "datasource \<Rightarrow> (key \<times> asset) list \<Rightarrow> spec_state \<Rightarrow> spec_state \<Rightarrow> bool"
  for ds al where
  rewrite: "(k, a) \<in> set al \<Longrightarrow> is_html k \<Longrightarrow> k \<notin> sp_done S \<Longrightarrow> injected ds a = Some a' \<Longrightarrow>
    spec_step ds al S (S\<lparr>sp_assets := AList.update k a' (sp_assets S), sp_done := insert k (sp_done S)\<rparr>)"
| complete: "k \<in> sp_done S \<Longrightarrow> k = fst (last al) \<Longrightarrow> spec_step ds al S (S\<lparr>sp_resolved := True\<rparr>)"

definition committed_keys :: "task list \<Rightarrow> key set" where
  "committed_keys ts = set (map tkey (filter (\<lambda>t. committed (stage t)) ts))"

definition abs_state :: "engine \<Rightarrow> spec_state" where
  "abs_state s = \<lparr>sp_assets = assets s, sp_done = committed_keys (tasks s), sp_resolved = resolved s\<rparr>"

subsection \<open>The committed keys\<close>

lemma committed_keys_nth:
  "committed_keys ts = {tkey (ts ! j) |j. j < length ts \<and> committed (stage (ts ! j))}"
  by (auto simp: committed_keys_def in_set_conv_nth)

lemma committed_keys_quiet:
  assumes "i < length ts" and "\<not> committed (stage (ts ! i))" and "\<not> committed (stage t')"
  shows "committed_keys (ts[i := t']) = committed_keys ts"
  using assms unfolding committed_keys_nth by (metis (no_types, opaque_lifting) length_list_update nth_list_update)

lemma committed_keys_commit:
  assumes i: "i < length ts" and c: "committed (stage t')" and k: "tkey t' = tkey (ts ! i)"
  shows "committed_keys (ts[i := t']) = insert (tkey t') (committed_keys ts)"
proof -
  have "\<And>j. j < length ts \<Longrightarrow> ts[i := t'] ! j = (if j = i then t' else ts ! j)"
    using i by (simp add: nth_list_update)
  then show ?thesis
    unfolding committed_keys_nth using i c k by (auto, metis, metis, metis)
qed

lemma abs_state_quiet:
  assumes "i < length (tasks s)" and "\<not> committed (stage (tasks s ! i))" and "\<not> committed (stage t')"
  shows "abs_state (s\<lparr>cache := c', tasks := (tasks s)[i := t']\<rparr>) = abs_state s"
  using committed_keys_quiet [OF assms] by (simp add: abs_state_def)

subsection \<open>Simulation\<close>

lemma abs_state_init: "abs_state (replace_assets ds as) = spec_init as"
proof -
  have "committed_keys (tasks (replace_assets ds as)) = {}"
    by (auto simp: committed_keys_def replace_assets_tasks committed_def)
  then show ?thesis by (simp add: abs_state_def spec_init_def replace_assets_resolved)
qed

text \<open>The continuation that commits chain \<open>i\<close> rewrites an HTML asset of the
  original object that no committed chain has rewritten, with its full
  substitution.\<close>

lemma commit_abs:
  assumes inv: "engine_inv (replace_assets ds as) s" and d: "distinct (map fst as)"
    and i: "i < length (tasks s)" and st: "stage (tasks s ! i) = Substituted"
  shows "spec_step ds as (abs_state s) (abs_state (then_commit s i))"
proof -
  let ?s0 = "replace_assets ds as"
  let ?t = "tasks s ! i"
  let ?u = "tasks ?s0 ! i"
  let ?k = "tkey ?t"
  have l: "launched ?s0" using d by (rule launched_replace_assets)
  have l2: "list_all2 task_inv (tasks ?s0) (tasks s)" by (rule engine_invD(1) [OF inv])
  have ti: "task_inv ?u ?t" using l2 i by (rule task_inv_nth)
  have u: "?u \<in> set (tasks ?s0)" using i list_all2_lengthD [OF l2] by simp
  obtain a where a: "(tkey ?u, a) \<in> set as" "is_html (tkey ?u)" "target ?u = source a"
    "tags ?u = fresh_tags ds a"
    using u by (rule initial_task_entry)
  have k: "?k = tkey ?u" using ti by (simp add: task_inv_def)
  have inj: "injected ds a = Some (mk_asset (target ?t))"
    using ti st a by (simp add: task_inv_def injected_def outcome_def)
  have dist: "distinct (map tkey (tasks s))"
    using l task_inv_keys [OF l2] by (simp add: launched_def)
  have new: "?k \<notin> committed_keys (tasks s)"
  proof
    assume "?k \<in> committed_keys (tasks s)"
    then have "\<exists>j. ?k = tkey (tasks s ! j) \<and> j < length (tasks s) \<and> committed (stage (tasks s ! j))"
      unfolding committed_keys_nth by simp
    then obtain j where j: "j < length (tasks s)" "committed (stage (tasks s ! j))" "?k = tkey (tasks s ! j)"
      by blast
    then have "j \<noteq> i" using st by (auto simp: committed_def)
    with distinct_tkey_neq [OF dist j(1) i] j(3) show False by simp
  qed
  have ks: "committed_keys (tasks (then_commit s i)) = insert ?k (committed_keys (tasks s))"
    using committed_keys_commit [of i "tasks s" "?t\<lparr>stage := Committed\<rparr>"] i
    by (simp add: handler_tasks committed_def)
  have "spec_step ds as (abs_state s)
      ((abs_state s)\<lparr>sp_assets := AList.update ?k (mk_asset (target ?t)) (sp_assets (abs_state s)),
                      sp_done := insert ?k (sp_done (abs_state s))\<rparr>)"
    using a k inj new by (intro spec_step.rewrite [of ?k a]) (simp_all add: abs_state_def)
  with ks show ?thesis by (simp add: abs_state_def then_commit_def Let_def)
qed

lemma finish_abs:
  assumes inv: "engine_inv (replace_assets ds as) s" and i: "i < length (tasks s)"
    and st: "stage (tasks s ! i) = Committed"
  shows "abs_state (then_resolve s i) = abs_state s \<or>
         spec_step ds as (abs_state s) (abs_state (then_resolve s i))"
proof -
  let ?s0 = "replace_assets ds as"
  let ?t = "tasks s ! i"
  let ?u = "tasks ?s0 ! i"
  have l2: "list_all2 task_inv (tasks ?s0) (tasks s)" by (rule engine_invD(1) [OF inv])
  have ti: "task_inv ?u ?t" using l2 i by (rule task_inv_nth)
  have u: "?u \<in> set (tasks ?s0)" using i list_all2_lengthD [OF l2] by simp
  have last: "is_last ?u = (tkey ?u = fst (last as))" using u by (rule initial_task_entry)
  have ks: "committed_keys (tasks (then_resolve s i)) = committed_keys (tasks s)"
    using committed_keys_commit [of i "tasks s" "?t\<lparr>stage := Finished\<rparr>"] i st
    by (auto simp: handler_tasks committed_def committed_keys_nth)
  have dn: "tkey ?t \<in> committed_keys (tasks s)"
    using i st unfolding committed_keys_nth by (auto simp: committed_def)
  have abs: "abs_state (then_resolve s i) = (abs_state s)\<lparr>sp_resolved := resolved s \<or> is_last ?t\<rparr>"
    using ks by (simp add: abs_state_def then_resolve_def Let_def)
  show ?thesis
  proof (cases "is_last ?t \<and> \<not> resolved s")
    case True
    then have "tkey ?t = fst (last as)" using ti last by (simp add: task_inv_def)
    then have "spec_step ds as (abs_state s) ((abs_state s)\<lparr>sp_resolved := True\<rparr>)"
      using dn by (intro spec_step.complete [of "tkey ?t"]) (simp_all add: abs_state_def)
    with abs True show ?thesis by simp
  next
    case False
    with abs show ?thesis by (auto simp: abs_state_def)
  qed
qed

lemma chain_step_abs:
  assumes inv: "engine_inv (replace_assets ds as) s" and d: "distinct (map fst as)"
    and step: "chain_step s u"
  shows "abs_state u = abs_state s \<or> spec_step ds as (abs_state s) (abs_state u)"
  using step
proof cases
  case (substitute i vs)
  then show ?thesis
    by (simp add: abs_state_def handler_tasks committed_keys_quiet committed_def engine_defs Let_def
        split: prod.split option.split)
next
  case (reject i)
  then show ?thesis
    by (simp add: abs_state_def handler_tasks committed_keys_quiet committed_def engine_defs)
next
  case (commit i)
  then show ?thesis using commit_abs [OF inv d] by simp
next
  case (finish i)
  then show ?thesis using finish_abs [OF inv] by simp
qed

subsection \<open>Refinement\<close>

text \<open>C18: The model of \<open>replaceAssets\<close> refines the abstract specification:
  the abstraction of every state of a run is reached from the abstraction of
  the initial state by abstract steps, each of which rewrites one HTML asset
  not rewritten before with its full substitution, or signals completion after
  the last key has been rewritten.  The abstract initial state is the one the
  synchronous loop leaves: already complete, with nothing rewritten, when the
  last key is not an HTML file (the early \<open>resolve()\<close> of C1, which this
  specification records rather than forbids).\<close>

theorem refines_spec:
  assumes r: "reachable ds as s" and d: "distinct (map fst as)"
  shows "(spec_step ds as)\<^sup>*\<^sup>* (spec_init as) (abs_state s)"
proof -
  have "chain_step\<^sup>*\<^sup>* (replace_assets ds as) s" using r by (simp add: reachable_def)
  then show ?thesis
  proof (induction rule: rtranclp_induct)
    case base
    show ?case by (simp add: abs_state_init)
  next
    case (step u v)
    have "engine_inv (replace_assets ds as) u"
      using step.hyps(1) d by (intro reachable_inv) (simp_all add: reachable_def)
    from chain_step_abs [OF this d step.hyps(2)] step.IH show ?case
      by (auto intro: rtranclp.rtrancl_into_rtrancl)
  qed
qed

theorem refines_spec_witness:
  "(spec_step remote_source [(''index.html'', mk_asset ''<p></p>'')])\<^sup>*\<^sup>*
     (spec_init [(''index.html'', mk_asset ''<p></p>'')])
     (abs_state (drain (replace_assets remote_source [(''index.html'', mk_asset ''<p></p>'')])))"
proof -
  have d: "distinct (map fst [(''index.html'', mk_asset ''<p></p>'')])" by simp
  show ?thesis using refines_spec [OF drain_reachable [OF d] d] .
qed

end
