(* ===== verification/Plugin.thy ===== *)
theory Plugin
  imports Engine
begin

text \<open>
  The plugin object and its registration with the host (src/InjectTemplate.js,
  lines 13--38), and the build configuration that instantiates it
  (src/webpack.config.js).  The constructor stores \<open>options || {}\<close>; \<open>apply\<close>
  taps webpack's \<open>thisCompilation\<close> hook, and for each new compilation taps
  its \<open>processAssets\<close> hook at stage \<open>PROCESS_ASSETS_STAGE_ADDITIONS\<close> with
  \<open>additionalAssets: true\<close> and the handler
  \<open>(assets) => this.replaceAssets(assets, compilation)\<close>.  The host's hook
  objects are modelled as lists of taps in registration order; creating a
  compilation runs the \<open>thisCompilation\<close> taps in that order
  (\<open>new_compilation\<close>).
\<close>

subsection \<open>The plugin object\<close>

text \<open>An options object with string-valued properties, and the argument of
  the constructor: absent, \<open>null\<close>, or an object.\<close>

type_synonym js_object = "(string \<times> string) list"

datatype js_arg = Absent | Null | Obj js_object

record inject_template =
  options :: js_object

text \<open>\<open>this.options = options || {}\<close>: \<open>undefined\<close> and \<open>null\<close> are falsy,
  every object is truthy.\<close>

definition new_inject_template :: "js_arg \<Rightarrow> inject_template" where
  "new_inject_template a = \<lparr>options = (case a of Obj obj \<Rightarrow> obj | _ \<Rightarrow> [])\<rparr>"

subsection \<open>Hook registration\<close>











subsection \<open>The build configuration\<close>

record html_options =
  html_title :: string
  html_filename :: string
  html_template :: string
  html_hash :: bool
  html_minify :: "(string \<times> bool) list"
  html_inject :: string
  html_script_loading :: string

datatype plugin_cfg = HtmlWebpackPlugin html_options | InjectTemplatePlugin inject_template

record webpack_config =
  cfg_mode :: "string option"
  cfg_entry :: string
  cfg_output_filename :: string
  cfg_output_path :: string
  cfg_plugins :: "plugin_cfg list"

text \<open>\<open>module.exports\<close> of src/webpack.config.js, given the environment's
  \<open>NODE_ENV\<close> and the two paths \<open>path.resolve\<close> computes.\<close>

definition webpack_cfg :: "string option \<Rightarrow> string \<Rightarrow> string \<Rightarrow> webpack_config" where
  "webpack_cfg node_env dist_path template_path =
     \<lparr>cfg_mode = node_env, cfg_entry = ''./src/index.js'',
      cfg_output_filename = ''index.js'', cfg_output_path = dist_path,
      cfg_plugins =
        [HtmlWebpackPlugin \<lparr>html_title = ''Webpack Template'', html_filename = ''index.html'',
           html_template = template_path, html_hash = True,
           html_minify = [(''collapseWhitespace'', True), (''removeAttributeQuotes'', True),
                          (''minifyCSS'', True), (''minifyJS'', True)],
           html_inject = ''body'', html_script_loading = ''blocking''\<rparr>,
         InjectTemplatePlugin (new_inject_template (Obj [(''url'', ''http://www.test.com'')]))]\<rparr>"

subsection \<open>Properties\<close>





end
