(* ===== verification/EventLoop.thy ===== *)
theory EventLoop
  imports Runs "HOL-Library.Product_Lexorder"
begin

text \<open>
  The order in which the microtask queue runs the promise chains of
  \<open>replaceAssets\<close> (src/InjectTemplate.js, lines 47--103).  \<open>chain_step\<close> leaves
  the order open; here it is fixed the way the ECMAScript job queue fixes it.
  A job is a promise reaction: \<open>Elem i j\<close> is the reaction \<open>Promise.all\<close>
  (line 76) registers on the promise of the \<open>j\<close>-th tag of chain \<open>i\<close>, and
  \<open>Cont i\<close> is the next \<open>then\<close> callback of chain \<open>i\<close> (lines 77, 87, 100).
  The queue is first-in first-out: a job runs from the head, and a promise that
  settles appends the reactions registered on it.

  During the synchronous loop a fulfilled tag promise gets its \<open>Elem\<close> job at
  once: \<open>RemoteData\<close> returns \<open>Promise.resolve(data[key])\<close> and a cached value
  is wrapped by \<open>Promise.all\<close>, so both are settled; a chain with no tag gets
  its first \<open>Cont\<close> at once, as \<open>Promise.all([])\<close> is already fulfilled.  The
  last \<open>Elem\<close> of a chain fulfils the \<open>Promise.all\<close> promise and so appends the
  first \<open>Cont\<close>; a \<open>then\<close> callback that returns settles its promise and appends
  the next \<open>Cont\<close>.  A fetch that settles later, as a request over the network
  does, is a macrotask: it runs when the microtask queue is empty and appends
  its \<open>Elem\<close> job (\<open>settle\<close>).  The parameter \<open>late\<close> says which fetches do so;
  for \<open>RemoteData\<close> none does.  A rejection propagates through the rest of the
  chain as reaction jobs that change nothing; they are left out, which changes
  neither the state nor the order of the other jobs.
\<close>

datatype job = Elem nat nat | Cont nat

record loop_state =
  eng :: engine
  queue :: "job list"
  left :: "nat list"
  unsettled :: "job list"

text \<open>The jobs of chain \<open>i\<close> at launch: those queued during the loop and
  those waiting for a late fetch.\<close>

definition late_tag :: "(name \<Rightarrow> bool) \<Rightarrow> tag_entry \<Rightarrow> bool" where
  "late_tag late e \<longleftrightarrow> late (tname e) \<and> object_proto (tname e) = None"

definition launch_jobs :: "(name \<Rightarrow> bool) \<Rightarrow> nat \<Rightarrow> task \<Rightarrow> job list \<times> job list" where
  "launch_jobs late i t =
     (if tags t = [] then ([Cont i], [])
      else (map (Elem i) (filter (\<lambda>j. \<not> late_tag late (tags t ! j)) [0..<length (tags t)]),
            map (Elem i) (filter (\<lambda>j. late_tag late (tags t ! j)) [0..<length (tags t)])))"

text \<open>The state the synchronous loop leaves: the launched chains, the jobs
  queued in launch order, and for each chain the number of tags
  \<open>Promise.all\<close> waits for.\<close>

definition launch_loop :: "(name \<Rightarrow> bool) \<Rightarrow> engine \<Rightarrow> loop_state" where
  "launch_loop late s =
     (let js = map (\<lambda>i. launch_jobs late i (tasks s ! i)) [0..<length (tasks s)]
      in \<lparr>eng = s, queue = concat (map fst js), left = map (\<lambda>t. length (tags t)) (tasks s),
          unsettled = concat (map snd js)\<rparr>)"

definition init_loop :: "datasource \<Rightarrow> (name \<Rightarrow> bool) \<Rightarrow> (key \<times> asset) list \<Rightarrow> loop_state" where
  "init_loop ds late as = launch_loop late (replace_assets ds as)"

text \<open>Running one job.  \<open>Elem\<close>: a rejected tag rejects \<open>Promise.all\<close>; a
  fulfilled one counts down the elements left, and the last one fulfils
  \<open>Promise.all\<close> and queues the first \<open>then\<close>.  \<open>Cont\<close>: the next
  continuation of the chain, which queues the one after unless it threw or was
  the last.\<close>

fun run_job :: "loop_state \<Rightarrow> job \<Rightarrow> loop_state" where
  "run_job L (Elem i j) =
     (let s = eng L; t = tasks s ! i
      in if i < length (tasks s) \<and> stage t = Pending \<and> j < length (tags t) then
           (case tdata (tags t ! j) of
              Rejected \<Rightarrow> L\<lparr>eng := then_reject s i\<rparr>
            | Resolved v \<Rightarrow>
                (let n = left L ! i - 1
                 in L\<lparr>left := (left L)[i := n], queue := queue L @ (if n = 0 then [Cont i] else [])\<rparr>))
         else L)"
| "run_job L (Cont i) =
     (let s = eng L; t = tasks s ! i
      in if i < length (tasks s) then
           (case stage t of
              Pending \<Rightarrow>
                (case all_resolved (tags t) of
                   None \<Rightarrow> L\<lparr>eng := then_reject s i\<rparr>
                 | Some vs \<Rightarrow>
                     (let s' = then_substitute s i vs
                      in L\<lparr>eng := s', queue := queue L @ (if stage (tasks s' ! i) = Failed then [] else [Cont i])\<rparr>))
            | Substituted \<Rightarrow> L\<lparr>eng := then_commit s i, queue := queue L @ [Cont i]\<rparr>
            | Committed \<Rightarrow> L\<lparr>eng := then_resolve s i\<rparr>
            | _ \<Rightarrow> L)
         else L)"

definition loop_next :: "loop_state \<Rightarrow> loop_state option" where
  "loop_next L = (case queue L of [] \<Rightarrow> None | h # q \<Rightarrow> Some (run_job (L\<lparr>queue := q\<rparr>) h))"

inductive loop_step :: "loop_state \<Rightarrow> loop_state \<Rightarrow> bool" where
  micro: "loop_next L = Some L' \<Longrightarrow> loop_step L L'"
| settle: "queue L = [] \<Longrightarrow> jb \<in> set (unsettled L) \<Longrightarrow>
    loop_step L (L\<lparr>queue := [jb], unsettled := remove1 jb (unsettled L)\<rparr>)"

definition loop_reachable :: "datasource \<Rightarrow> (name \<Rightarrow> bool) \<Rightarrow> (key \<times> asset) list \<Rightarrow> loop_state \<Rightarrow> bool" where
  "loop_reachable ds late as L \<longleftrightarrow> loop_step\<^sup>*\<^sup>* (init_loop ds late as) L"

text \<open>The measure that every job lowers: the continuations left, then the
  jobs queued (an \<open>Elem\<close> job can turn into a \<open>Cont\<close> job), then the fetches
  still to settle.\<close>

fun job_weight :: "job \<Rightarrow> nat" where
  "job_weight (Elem i j) = 2"
| "job_weight (Cont i) = 1"

definition loop_measure :: "loop_state \<Rightarrow> nat" where
  "loop_measure L = 4 * work (eng L) + sum_list (map job_weight (queue L)) + 3 * length (unsettled L)"

subsection \<open>Every job is a step of the open interleaving\<close>

lemma run_job_chain:
  "eng (run_job L h) = eng L \<and>
     sum_list (map job_weight (queue (run_job L h))) < sum_list (map job_weight (queue L)) + job_weight h \<or>
   chain_step (eng L) (eng (run_job L h)) \<and>
     sum_list (map job_weight (queue (run_job L h))) \<le> sum_list (map job_weight (queue L)) + job_weight h"
proof (cases h)
  case (Elem i j)
  show ?thesis
  proof (cases "i < length (tasks (eng L)) \<and> stage (tasks (eng L) ! i) = Pending \<and>
                j < length (tags (tasks (eng L) ! i))")
    case True
    then have "tags (tasks (eng L) ! i) ! j \<in> set (tags (tasks (eng L) ! i))" by simp
    with True have rej: "tdata (tags (tasks (eng L) ! i) ! j) = Rejected \<Longrightarrow>
        chain_step (eng L) (then_reject (eng L) i)"
      by (intro chain_step.reject) (auto simp: all_resolved_None_iff)
    with True Elem show ?thesis
      by (cases "tdata (tags (tasks (eng L) ! i) ! j)") (simp_all add: Let_def)
  qed (auto simp: Elem Let_def)
next
  case (Cont i)
  show ?thesis
  proof (cases "i < length (tasks (eng L))")
    case True
    then show ?thesis
      by (cases "stage (tasks (eng L) ! i)")
        (auto simp: Cont Let_def split: option.split
          intro: chain_step.substitute chain_step.reject chain_step.commit chain_step.finish)
  qed (simp add: Cont)
qed

lemma loop_next_chain:
  "loop_next L = Some L' \<Longrightarrow> eng L' = eng L \<or> chain_step (eng L) (eng L')"
proof -
  assume "loop_next L = Some L'"
  then obtain h q where "queue L = h # q" "L' = run_job (L\<lparr>queue := q\<rparr>) h"
    by (auto simp: loop_next_def split: list.splits)
  with run_job_chain [of "L\<lparr>queue := q\<rparr>" h] show ?thesis by auto
qed

lemma run_job_unsettled [simp]: "unsettled (run_job L h) = unsettled L"
  by (cases h) (auto simp: Let_def split: fetch_result.split option.split stage.split)

lemma loop_step_measure: "loop_step L L' \<Longrightarrow> loop_measure L' < loop_measure L"
proof (induction rule: loop_step.induct)
  case (micro L L')
  then obtain h q where q: "queue L = h # q" and L': "L' = run_job (L\<lparr>queue := q\<rparr>) h"
    by (auto simp: loop_next_def split: list.splits)
  have u: "unsettled L' = unsettled L" by (simp add: L')
  from run_job_chain [of "L\<lparr>queue := q\<rparr>" h] show ?case
  proof
    assume "eng (run_job (L\<lparr>queue := q\<rparr>) h) = eng (L\<lparr>queue := q\<rparr>) \<and>
      sum_list (map job_weight (queue (run_job (L\<lparr>queue := q\<rparr>) h))) <
      sum_list (map job_weight (queue (L\<lparr>queue := q\<rparr>))) + job_weight h"
    with q u show ?case by (simp add: loop_measure_def L')
  next
    assume "chain_step (eng (L\<lparr>queue := q\<rparr>)) (eng (run_job (L\<lparr>queue := q\<rparr>) h)) \<and>
      sum_list (map job_weight (queue (run_job (L\<lparr>queue := q\<rparr>) h))) \<le>
      sum_list (map job_weight (queue (L\<lparr>queue := q\<rparr>))) + job_weight h"
    with q u chain_step_work show ?case by (fastforce simp: loop_measure_def L')
  qed
next
  case (settle L jb)
  then show ?case
  proof -
    obtain n where "length (unsettled L) = Suc n"
      using length_pos_if_in_set [OF settle(2)] gr0_implies_Suc by blast
    moreover have "length (remove1 jb (unsettled L)) = length (unsettled L) - 1"
      using settle(2) by (simp add: length_remove1)
    ultimately show ?thesis using settle(1) by (cases jb) (simp_all add: loop_measure_def)
  qed
qed

subsection \<open>The deterministic microtask phase\<close>

text \<open>The microtask queue run until it is empty: the whole microtask phase
  when no fetch is late.\<close>

function run_loop :: "loop_state \<Rightarrow> loop_state" where
  "run_loop L = (case loop_next L of None \<Rightarrow> L | Some L' \<Rightarrow> run_loop L')"
  by pat_completeness auto
termination
proof (relation "measure loop_measure")
  fix L L'
  assume "loop_next L = Some L'"
  then show "(L', L) \<in> measure loop_measure"
    by (simp add: loop_step_measure loop_step.micro)
qed simp

declare run_loop.simps [simp del]

lemma run_loop_steps: "loop_step\<^sup>*\<^sup>* L (run_loop L) \<and> queue (run_loop L) = []"
proof (induction L rule: run_loop.induct)
  case (1 L)
  show ?case
  proof (cases "loop_next L")
    case None
    then show ?thesis by (simp add: run_loop.simps [of L] loop_next_def split: list.splits)
  next
    case (Some L')
    with "1.IH" [OF Some] show ?thesis
      by (simp add: run_loop.simps [of L])
        (meson converse_rtranclp_into_rtranclp loop_step.micro)
  qed
qed

lemma loop_step_eng: "loop_step L L' \<Longrightarrow> chain_step\<^sup>=\<^sup>= (eng L) (eng L')"
  by (induction rule: loop_step.induct) (auto dest: loop_next_chain)

lemma loop_steps_eng: "loop_step\<^sup>*\<^sup>* L L' \<Longrightarrow> chain_step\<^sup>*\<^sup>* (eng L) (eng L')"
proof (induction rule: rtranclp_induct)
  case (step L1 L2)
  from loop_step_eng [OF step(2)] step(3) show ?case by auto
qed simp

lemma init_loop_eng [simp]: "eng (init_loop ds late as) = replace_assets ds as"
  by (simp add: init_loop_def launch_loop_def Let_def)

subsection \<open>What the event loop inherits from the open interleaving\<close>

text \<open>C12: The event loop stops, whatever the order in which late fetches
  settle: a run of \<open>n\<close> steps, jobs and settlements alike, lowers the measure
  by at least \<open>n\<close>, so no run is longer than \<open>loop_measure\<close> of its start.\<close>

theorem loop_run_bound:
  "(loop_step ^^ n) L L' \<Longrightarrow> n + loop_measure L' \<le> loop_measure L"
proof (induction n arbitrary: L')
  case (Suc n)
  then obtain M where "(loop_step ^^ n) L M" "loop_step M L'" by (meson relpowp_Suc_E)
  with Suc.IH loop_step_measure [of M L'] show ?case by fastforce
qed simp

end
