(* ===== verification/FifoOrder.thy ===== *)
theory FifoOrder
  imports EventLoop
begin

text \<open>
  The first-in first-out order of the job queue when no fetch is late, as with
  \<open>RemoteData\<close>.  Every queued job gets a stamp \<open>(round, chain)\<close>: an \<open>Elem\<close>
  job is in round 0, the next \<open>Cont\<close> of chain \<open>i\<close> in the round given by
  the stage of the chain, one later when the chain waited for tags.  The queue
  is sorted by stamp and its last stamp is at most one round after its head
  (\<open>stamps_ok\<close>); with the bookkeeping of \<open>chain_jobs_ok\<close> (a pending chain
  has as many \<open>Elem\<close> jobs queued as \<open>Promise.all\<close> still waits for, or its
  first \<open>Cont\<close>; a running chain has exactly one \<open>Cont\<close>) this is
  \<open>fifo_inv\<close>, which the launch establishes and every job keeps.  Then the
  job that calls \<open>resolve()\<close>, the last \<open>Cont\<close> of the chain of the last key,
  has the least stamp in the queue, so every other chain has committed or
  failed (\<open>remote_completion_waits\<close>), and the run of the queue is one of
  the schedules of \<open>chain_step\<close> and ends where \<open>drain\<close> ends
  (\<open>fifo_schedule_agrees\<close>).
\<close>

fun chain_round :: "stage \<Rightarrow> nat" where
  "chain_round Pending = 0"
| "chain_round Substituted = 1"
| "chain_round Committed = 2"
| "chain_round Finished = 3"
| "chain_round Failed = 3"

definition job_stamp :: "engine \<Rightarrow> job \<Rightarrow> nat \<times> nat" where
  "job_stamp s jb =
     (case jb of
        Elem i j \<Rightarrow> (0, i)
      | Cont i \<Rightarrow> (chain_round (stage (tasks s ! i)) + (if tags (tasks s ! i) = [] then 0 else 1), i))"

definition next_round :: "nat \<times> nat \<Rightarrow> nat \<times> nat" where
  "next_round p = (Suc (fst p), snd p)"

definition stamps_ok :: "engine \<Rightarrow> job list \<Rightarrow> bool" where
  "stamps_ok s q \<longleftrightarrow>
     sorted (map (job_stamp s) q) \<and> (q \<noteq> [] \<longrightarrow> job_stamp s (last q) \<le> next_round (job_stamp s (hd q)))"

fun job_chain :: "job \<Rightarrow> nat" where
  "job_chain (Elem i j) = i"
| "job_chain (Cont i) = i"

fun is_elem :: "job \<Rightarrow> bool" where
  "is_elem (Elem i j) = True"
| "is_elem (Cont i) = False"

definition elem_count :: "nat \<Rightarrow> job list \<Rightarrow> nat" where
  "elem_count i q = length (filter (\<lambda>jb. is_elem jb \<and> job_chain jb = i) q)"

definition chain_jobs_ok :: "engine \<Rightarrow> job list \<Rightarrow> nat list \<Rightarrow> nat \<Rightarrow> bool" where
  "chain_jobs_ok s q lf i \<longleftrightarrow>
     (stage (tasks s ! i) = Pending \<longrightarrow> elem_count i q = lf ! i \<and> (Cont i \<in> set q \<longleftrightarrow> lf ! i = 0)) \<and>
     (stage (tasks s ! i) = Substituted \<or> stage (tasks s ! i) = Committed \<longrightarrow> Cont i \<in> set q) \<and>
     (Cont i \<in> set q \<longrightarrow> stage (tasks s ! i) = Pending \<or> stage (tasks s ! i) = Substituted \<or>
        stage (tasks s ! i) = Committed) \<and>
     count_list q (Cont i) \<le> 1"

definition job_ok :: "engine \<Rightarrow> job \<Rightarrow> bool" where
  "job_ok s jb =
     (case jb of
        Elem i j \<Rightarrow> i < length (tasks s) \<and> j < length (tags (tasks s ! i))
      | Cont i \<Rightarrow> i < length (tasks s))"

definition fifo_inv :: "loop_state \<Rightarrow> bool" where
  "fifo_inv L \<longleftrightarrow>
     length (left L) = length (tasks (eng L)) \<and> unsettled L = [] \<and>
     stamps_ok (eng L) (queue L) \<and> list_all (job_ok (eng L)) (queue L) \<and>
     (\<forall>i < length (tasks (eng L)). chain_jobs_ok (eng L) (queue L) (left L) i)"

definition settled :: "stage \<Rightarrow> bool" where
  "settled st \<longleftrightarrow> committed st \<or> st = Failed"

lemma next_round_mono: "x \<le> y \<Longrightarrow> next_round x \<le> next_round y"
  by (cases x; cases y) (auto simp: next_round_def)

lemma le_next_round: "x \<le> next_round x"
  by (cases x) (simp add: next_round_def)

lemma sorted_le_last: "sorted xs \<Longrightarrow> x \<in> set xs \<Longrightarrow> x \<le> last xs"
  by (induction xs) (auto simp: last_in_set)

lemma stamps_ok_step:
  assumes ok: "stamps_ok s (h # q)" and same: "map (job_stamp s') q = map (job_stamp s) q"
    and a: "\<forall>x \<in> set a. job_stamp s' x = next_round (job_stamp s h)" and la: "length a \<le> 1"
  shows "stamps_ok s' (q @ a)"
proof -
  let ?f = "job_stamp s" and ?g = "job_stamp s'"
  have srt: "sorted (map ?f q)" and hd_le: "\<forall>x \<in> set q. ?f h \<le> ?f x"
    and lst: "?f (last (h # q)) \<le> next_round (?f h)"
    using ok by (simp_all add: stamps_ok_def)
  have g: "\<forall>x \<in> set q. ?g x = ?f x" using same by (simp add: map_eq_conv)
  have q_le: "\<forall>x \<in> set q. ?f x \<le> next_round (?f h)"
  proof
    fix x assume x: "x \<in> set q"
    then have "q \<noteq> []" by auto
    with x srt have "?f x \<le> ?f (last q)"
      using sorted_le_last [of "map ?f q" "?f x"] by (simp add: last_map)
    with lst \<open>q \<noteq> []\<close> show "?f x \<le> next_round (?f h)" by simp
  qed
  have a_cases: "a = [] \<or> (\<exists>y. a = [y])" using la by (cases a) auto
  have sorted': "sorted (map ?g (q @ a))"
    unfolding map_append same using a_cases srt q_le a by (auto simp: sorted_append)
  have bound: "q @ a \<noteq> [] \<Longrightarrow> ?g (last (q @ a)) \<le> next_round (?g (hd (q @ a)))"
  proof (cases q)
    case Nil
    then show "q @ a \<noteq> [] \<Longrightarrow> ?thesis" using a_cases a by (auto intro: le_next_round)
  next
    case (Cons y ys)
    then have "next_round (?f h) \<le> next_round (?g (hd (q @ a)))"
      using hd_le g by (simp add: next_round_mono)
    moreover have "?g (last (q @ a)) \<le> next_round (?f h)"
      using a_cases a q_le g Cons by (auto simp: last_in_set)
    ultimately show "q @ a \<noteq> [] \<Longrightarrow> ?thesis" by (rule order_trans [rotated])
  qed
  from sorted' bound show ?thesis by (simp add: stamps_ok_def)
qed

lemma job_stamp_other:
  assumes "tasks s' = (tasks s)[i := t]" "tags t = tags (tasks s ! i)" "Cont i \<notin> set q"
  shows "map (job_stamp s') q = map (job_stamp s) q"
proof (rule map_cong [OF refl])
  fix jb assume "jb \<in> set q"
  with assms(3) have "jb \<noteq> Cont i" by blast
  with assms(1,2) show "job_stamp s' jb = job_stamp s jb"
    by (cases jb) (simp_all add: job_stamp_def)
qed

lemma chain_jobs_ok_keep:
  assumes ok: "chain_jobs_ok s (h # q) lf k" and h: "h \<noteq> Cont k" and a: "Cont k \<notin> set a"
    and t: "tasks s' ! k = tasks s ! k" and l: "lf' ! k = lf ! k"
    and c: "stage (tasks s ! k) = Pending \<Longrightarrow> elem_count k (q @ a) = elem_count k (h # q)"
  shows "chain_jobs_ok s' (q @ a) lf' k"
proof -
  have "count_list (q @ a) (Cont k) = count_list (h # q) (Cont k)"
    using h a by (simp add: count_list_0_iff)
  with ok h a t l c show ?thesis by (auto simp: chain_jobs_ok_def)
qed

text \<open>One job of chain \<open>i\<close> run from the head of the queue: the chain's
  task and count change, nothing or the chain's next \<open>Cont\<close> is appended.\<close>

lemma fifo_inv_pop:
  assumes inv: "fifo_inv L" and q: "queue L = h # q" and i: "job_chain h = i"
    and s': "tasks s' = (tasks (eng L))[i := t]" "tags t = tags (tasks (eng L) ! i)"
    and a: "a = [] \<or> a = [Cont i]"
    and a_stamp: "a = [Cont i] \<Longrightarrow> job_stamp s' (Cont i) = next_round (job_stamp (eng L) h)"
    and same: "map (job_stamp s') q = map (job_stamp (eng L)) q"
    and own: "chain_jobs_ok s' (q @ a) ((left L)[i := m]) i"
    and L': "eng L' = s'" "queue L' = q @ a" "left L' = (left L)[i := m]" "unsettled L' = unsettled L"
  shows "fifo_inv L'"
proof -
  let ?s = "eng L"
  have len: "length (tasks s') = length (tasks ?s)" using s' by simp
  have st: "stamps_ok ?s (h # q)" and jobs: "list_all (job_ok ?s) (h # q)"
    and ch: "\<forall>k < length (tasks ?s). chain_jobs_ok ?s (h # q) (left L) k"
    using inv q by (simp_all add: fifo_inv_def)
  have i_lt: "i < length (tasks ?s)"
    using jobs i by (cases h) (simp_all add: job_ok_def)
  have "stamps_ok s' (q @ a)"
    using stamps_ok_step [OF st same, of a] a a_stamp by auto
  moreover have jo: "job_ok s' = job_ok ?s"
  proof
    fix jb show "job_ok s' jb = job_ok ?s jb"
      using s' by (cases jb; cases "job_chain jb = i") (auto simp: job_ok_def)
  qed
  have "list_all (job_ok s') (q @ a)"
    unfolding jo using jobs a i_lt by (auto simp: job_ok_def)
  moreover note this
  moreover have "chain_jobs_ok s' (q @ a) ((left L)[i := m]) k" if k: "k < length (tasks ?s)" for k
  proof (cases "k = i")
    case False
    have "elem_count k (q @ a) = elem_count k (h # q)"
      using a i False by (auto simp: elem_count_def)
    with ch k i False a s' show ?thesis
      by (intro chain_jobs_ok_keep [of ?s h q "left L"]) auto
  qed (use own in simp)
  ultimately show ?thesis
    using inv len L' by (simp add: fifo_inv_def)
qed

lemma count_list_Cons_self: "count_list (x # xs) x \<le> 1 \<Longrightarrow> x \<notin> set xs"
  by (simp add: count_list_0_iff)

lemma elem_count_Cons: "elem_count i (Elem i j # q) = Suc (elem_count i q)"
  by (simp add: elem_count_def)

lemma fifo_inv_next:
  assumes inv: "fifo_inv L" and nx: "loop_next L = Some L'"
  shows "fifo_inv L'"
proof -
  let ?s = "eng L"
  obtain h q where q: "queue L = h # q" and L': "L' = run_job (L\<lparr>queue := q\<rparr>) h"
    using nx by (auto simp: loop_next_def split: list.splits)
  have jobs: "job_ok ?s h" and ch: "\<forall>k < length (tasks ?s). chain_jobs_ok ?s (h # q) (left L) k"
    using inv q by (simp_all add: fifo_inv_def)
  show ?thesis
  proof (cases h)
    case (Elem i j)
    have i: "i < length (tasks ?s)" "j < length (tags (tasks ?s ! i))"
      using jobs Elem by (simp_all add: job_ok_def)
    have ci: "chain_jobs_ok ?s (h # q) (left L) i" using ch i by simp
    show ?thesis
    proof (cases "stage (tasks ?s ! i) = Pending")
      case False
      show ?thesis
        by (rule fifo_inv_pop [OF inv q, of i ?s "tasks ?s ! i" "[]" "left L ! i"])
          (use ci False Elem in \<open>auto simp: chain_jobs_ok_def count_list_0_iff L'\<close>)
    next
      case True
      have cnt: "elem_count i (h # q) = left L ! i" and noc: "Cont i \<notin> set q"
        using ci True Elem by (auto simp: chain_jobs_ok_def elem_count_Cons)
      show ?thesis
      proof (cases "tdata (tags (tasks ?s ! i) ! j)")
        case Rejected
        show ?thesis
          by (rule fifo_inv_pop [OF inv q, of i _ "(tasks ?s ! i)\<lparr>stage := Failed\<rparr>" "[]" "left L ! i"])
            (use noc i Elem True Rejected in
              \<open>simp_all add: handler_tasks chain_jobs_ok_def count_list_0_iff job_stamp_other L'\<close>)
      next
        case (Resolved v)
        let ?n = "left L ! i - 1"
        let ?a = "if ?n = 0 then [Cont i] else []"
        have L'': "L' = L\<lparr>eng := ?s, queue := q @ ?a, left := (left L)[i := ?n]\<rparr>"
          using True i Resolved by (simp add: L' Elem Let_def)
        have "elem_count i q = ?n" using cnt Elem by (simp add: elem_count_Cons)
        then have "chain_jobs_ok ?s (q @ ?a) ((left L)[i := ?n]) i"
          using True noc i inv by (auto simp: chain_jobs_ok_def elem_count_def fifo_inv_def count_list_0_iff)
        moreover have "job_stamp ?s (Cont i) = next_round (job_stamp ?s h)"
          using i Elem True by (auto simp: job_stamp_def next_round_def)
        ultimately show ?thesis
          by (intro fifo_inv_pop [OF inv q, of i ?s "tasks ?s ! i" ?a ?n]) (simp_all add: L'' Elem)
      qed
    qed
  next
    case (Cont i)
    have i: "i < length (tasks ?s)" using jobs Cont by (simp add: job_ok_def)
    have ci: "chain_jobs_ok ?s (h # q) (left L) i" using ch i by simp
    have noc: "Cont i \<notin> set q" using ci Cont by (auto simp: chain_jobs_ok_def count_list_0_iff)
    have stg: "stage (tasks ?s ! i) = Pending \<or> stage (tasks ?s ! i) = Substituted \<or>
        stage (tasks ?s ! i) = Committed" using ci Cont by (simp add: chain_jobs_ok_def)
    have L'f: "queue L' = q @ drop (length q) (queue L')" "left L' = (left L)[i := left L ! i]"
      "unsettled L' = unsettled L"
      by (simp_all add: L' Cont Let_def split: stage.split option.split)
    note simps = handler_tasks chain_jobs_ok_def count_list_0_iff job_stamp_other L' Cont Let_def
      job_stamp_def next_round_def
    show ?thesis
    proof (cases "stage (tasks ?s ! i)")
      case Pending
      show ?thesis
      proof (cases "all_resolved (tags (tasks ?s ! i))")
        case None
        show ?thesis
          by (rule fifo_inv_pop [OF inv q, of i "then_reject ?s i" "(tasks ?s ! i)\<lparr>stage := Failed\<rparr>" "[]"
                "left L ! i"])
            (use noc i Pending None in \<open>simp_all add: simps\<close>)
      next
        case (Some vs)
        let ?r = "subst_result (tasks ?s ! i) vs"
        let ?t = "(tasks ?s ! i)\<lparr>target := fst ?r,
                    stage := (case snd ?r of None \<Rightarrow> Substituted | Some e \<Rightarrow> Failed)\<rparr>"
        let ?a = "if snd ?r = None then [Cont i] else []"
        show ?thesis
          by (rule fifo_inv_pop [OF inv q, of i "then_substitute ?s i vs" ?t ?a "left L ! i"])
            (use noc i Pending Some in \<open>auto simp: simps split: option.splits if_splits\<close>)
      qed
    next
      case Substituted
      show ?thesis
        by (rule fifo_inv_pop [OF inv q, of i "then_commit ?s i" "(tasks ?s ! i)\<lparr>stage := Committed\<rparr>"
              "[Cont i]" "left L ! i"])
          (use noc i Substituted in \<open>simp_all add: simps\<close>)
    next
      case Committed
      show ?thesis
        by (rule fifo_inv_pop [OF inv q, of i "then_resolve ?s i" "(tasks ?s ! i)\<lparr>stage := Finished\<rparr>"
              "[]" "left L ! i"])
          (use noc i Committed in \<open>simp_all add: simps\<close>)
    qed (use stg in simp_all)
  qed
qed

subsection \<open>The queue the synchronous loop leaves\<close>

lemma blocks_chain:
  assumes "\<And>k x. x \<in> set (B k) \<Longrightarrow> job_chain x = k" and "i < n"
  shows "elem_count i (concat (map B [0..<n])) = elem_count i (B i) \<and>
    count_list (concat (map B [0..<n])) (Cont i) = count_list (B i) (Cont i)"
  using assms(2)
proof (induction n)
  case (Suc n)
  have other: "elem_count i (B n) = 0 \<and> count_list (B n) (Cont i) = 0" if "n \<noteq> i"
    using assms(1) [of _ n] that by (force simp: elem_count_def filter_empty_conv count_list_0_iff)
  show ?case
  proof (cases "n = i")
    case True
    have "elem_count i (concat (map B [0..<n])) = 0 \<and> count_list (concat (map B [0..<n])) (Cont i) = 0"
      using assms(1) True by (force simp: elem_count_def filter_empty_conv count_list_0_iff)
    with True show ?thesis by (simp add: elem_count_def)
  next
    case False
    with Suc other show ?thesis by (simp add: elem_count_def)
  qed
qed simp

lemma sorted_map_const: "\<forall>x \<in> set xs. f x = c \<Longrightarrow> sorted (map f xs)"
  by (induction xs) auto

lemma blocks_sorted:
  assumes chain: "\<And>k x. x \<in> set (B k) \<Longrightarrow> job_chain x = k"
  shows "sorted (map job_chain (concat (map B [0..<n])))"
proof (induction n)
  case (Suc n)
  have le: "\<forall>x \<in> set (concat (map B [0..<n])). job_chain x \<le> n" using chain by fastforce
  have eq: "\<forall>x \<in> set (B n). job_chain x = n" using chain by blast
  have "sorted (map job_chain (B n))" using eq by (rule sorted_map_const)
  then show ?case using Suc.IH le eq by (simp add: sorted_append)
qed simp

lemma fifo_inv_init:
  assumes pend: "list_all (\<lambda>t. stage t = Pending) (tasks s)"
  shows "fifo_inv (launch_loop (\<lambda>_. False) s)"
proof -
  let ?s = s
  let ?ts = "tasks ?s"
  let ?B = "\<lambda>i. fst (launch_jobs (\<lambda>_. False) i (?ts ! i))"
  let ?q = "concat (map ?B [0..<length ?ts])"
  have B: "?B k = (if tags (?ts ! k) = [] then [Cont k] else map (Elem k) [0..<length (tags (?ts ! k))])" for k
    by (simp add: launch_jobs_def late_tag_def)
  have chain: "job_chain x = k" if "x \<in> set (?B k)" for k x
    using that by (auto simp: B split: if_splits)
  have L: "eng (launch_loop (\<lambda>_. False) s) = ?s" "queue (launch_loop (\<lambda>_. False) s) = ?q"
    "left (launch_loop (\<lambda>_. False) s) = map (\<lambda>t. length (tags t)) ?ts"
    "unsettled (launch_loop (\<lambda>_. False) s) = []"
    by (simp_all add: launch_loop_def Let_def comp_def launch_jobs_def late_tag_def)
  have inq: "x \<in> set ?q \<Longrightarrow> job_chain x < length ?ts \<and> x \<in> set (?B (job_chain x))" for x
    using chain by fastforce
  have stamp: "job_stamp ?s x = (0, job_chain x)" if "x \<in> set ?q" for x
  proof -
    have "stage (?ts ! job_chain x) = Pending" using inq [OF that] pend by (simp add: list_all_length)
    with inq [OF that] show ?thesis by (cases x) (auto simp: B job_stamp_def split: if_splits)
  qed
  have ms: "map (job_stamp ?s) ?q = map (\<lambda>x. (0, job_chain x)) ?q"
    by (rule map_cong [OF refl]) (rule stamp)
  have "sorted (map job_chain ?q)" by (rule blocks_sorted) (rule chain)
  then have "sorted (map (\<lambda>x. (0::nat, job_chain x)) ?q)" by (simp add: sorted_map)
  moreover have "job_stamp ?s (last ?q) \<le> next_round (job_stamp ?s (hd ?q))" if ne: "?q \<noteq> []"
    using stamp [OF last_in_set [OF ne]] stamp [OF hd_in_set [OF ne]] by (simp add: next_round_def)
  ultimately have "stamps_ok ?s ?q" by (simp add: stamps_ok_def ms)
  moreover have "list_all (job_ok ?s) ?q"
    unfolding list_all_iff
  proof
    fix x assume x: "x \<in> set ?q"
    then have "job_chain x < length ?ts" "x \<in> set (?B (job_chain x))" using inq [OF x] by simp_all
    then show "job_ok ?s x" by (cases x) (auto simp: job_ok_def B split: if_splits)
  qed
  moreover have "chain_jobs_ok ?s ?q (map (\<lambda>t. length (tags t)) ?ts) i" if i: "i < length ?ts" for i
  proof -
    have bc: "elem_count i ?q = elem_count i (?B i)" "count_list ?q (Cont i) = count_list (?B i) (Cont i)"
      using blocks_chain [of ?B, OF chain i] by simp_all
    then have c: "Cont i \<in> set ?q \<longleftrightarrow> Cont i \<in> set (?B i)"
      by (metis count_list_0_iff)
    have b1: "Cont i \<in> set (?B i) \<longleftrightarrow> tags (?ts ! i) = []" by (auto simp: B)
    have b2: "count_list (?B i) (Cont i) \<le> 1"
    proof (cases "tags (?ts ! i) = []")
      case False
      then have "Cont i \<notin> set (?B i)" by (auto simp: B)
      then show ?thesis by simp
    qed (simp add: B)
    have b3: "elem_count i (?B i) = length (tags (?ts ! i))"
      by (simp add: B elem_count_def filter_id_conv)
    have "stage (?ts ! i) = Pending" using pend i by (simp add: list_all_length)
    then show ?thesis
      unfolding chain_jobs_ok_def bc c b1 using b2 b3 i by simp
  qed
  ultimately show ?thesis by (simp add: fifo_inv_def L)
qed

subsection \<open>The last chain finishes after every other chain has committed\<close>

lemma fifo_head_min:
  "fifo_inv L \<Longrightarrow> queue L = h # q \<Longrightarrow> x \<in> set q \<Longrightarrow> job_stamp (eng L) h \<le> job_stamp (eng L) x"
  by (simp add: fifo_inv_def stamps_ok_def)

lemma fifo_pending_job:
  assumes inv: "fifo_inv L" and k: "k < length (tasks (eng L))"
    and st: "stage (tasks (eng L) ! k) = Pending \<or> stage (tasks (eng L) ! k) = Substituted"
  obtains x where "x \<in> set (queue L)" "job_chain x = k" "job_stamp (eng L) x \<le> (2, k)"
proof -
  have ck: "chain_jobs_ok (eng L) (queue L) (left L) k" using inv k by (simp add: fifo_inv_def)
  show ?thesis
  proof (cases "Cont k \<in> set (queue L)")
    case True
    with ck st have "job_stamp (eng L) (Cont k) \<le> (2, k)"
      by (auto simp: job_stamp_def)
    with True that show ?thesis by simp
  next
    case False
    with ck st have "elem_count k (queue L) \<noteq> 0" by (auto simp: chain_jobs_ok_def)
    then obtain x where x: "x \<in> set (queue L)" "is_elem x" "job_chain x = k"
      by (auto simp: elem_count_def filter_empty_conv)
    from x(2,3) have "job_stamp (eng L) x = (0, k)" by (cases x) (simp_all add: job_stamp_def)
    with x that show ?thesis by simp
  qed
qed

lemma fifo_last_finish:
  assumes inv: "fifo_inv L" and q: "queue L = Cont i # q" and c: "stage (tasks (eng L) ! i) = Committed"
    and maxi: "Suc i = length (tasks (eng L))" and k: "k < length (tasks (eng L))" "k \<noteq> i"
  shows "settled (stage (tasks (eng L) ! k))"
proof (rule ccontr)
  assume "\<not> settled (stage (tasks (eng L) ! k))"
  then have "stage (tasks (eng L) ! k) = Pending \<or> stage (tasks (eng L) ! k) = Substituted"
    by (cases "stage (tasks (eng L) ! k)") (simp_all add: settled_def committed_def)
  then obtain x where x: "x \<in> set (queue L)" "job_chain x = k" "job_stamp (eng L) x \<le> (2, k)"
    using fifo_pending_job [OF inv k(1)] by blast
  have "x \<in> set q" using x q k(2) by auto
  then have "job_stamp (eng L) (Cont i) \<le> job_stamp (eng L) x" by (rule fifo_head_min [OF inv q])
  then have "job_stamp (eng L) (Cont i) \<le> (2, k)" using x(3) by (rule order_trans)
  moreover have "k < i" using k maxi by simp
  ultimately show False using c by (simp add: job_stamp_def split: if_splits)
qed

lemma chain_step_length: "chain_step s u \<Longrightarrow> length (tasks u) = length (tasks s)"
  by (induction rule: chain_step.induct) (simp_all add: handler_tasks)

lemma chain_step_settled:
  "chain_step s u \<Longrightarrow> j < length (tasks s) \<Longrightarrow> settled (stage (tasks s ! j)) \<Longrightarrow>
   settled (stage (tasks u ! j))"
  by (induction rule: chain_step.induct)
    (auto simp: handler_tasks settled_def committed_def nth_list_update split: option.split)

lemma resolved_quiet [simp]:
  "resolved (then_reject s i) = resolved s" "resolved (then_substitute s i vs) = resolved s"
  "resolved (then_commit s i) = resolved s"
  by (simp_all add: engine_defs Let_def split: prod.split)

lemma run_job_resolved:
  assumes r: "\<not> resolved (eng L)" "resolved (eng (run_job L h))"
  shows "\<exists>i. h = Cont i \<and> i < length (tasks (eng L)) \<and> stage (tasks (eng L) ! i) = Committed \<and>
    is_last (tasks (eng L) ! i) \<and> eng (run_job L h) = then_resolve (eng L) i"
proof (cases h)
  case (Elem i j)
  with r show ?thesis by (simp add: Let_def split: if_splits fetch_result.splits)
next
  case (Cont i)
  show ?thesis
  proof (cases "i < length (tasks (eng L))")
    case True
    with r Cont show ?thesis
      by (cases "stage (tasks (eng L) ! i)")
        (simp_all add: Let_def split: option.splits, simp add: engine_defs Let_def)
  qed (use r Cont in simp)
qed

lemma loop_next_resolved:
  assumes nx: "loop_next L = Some L'" and r: "\<not> resolved (eng L)" "resolved (eng L')"
  obtains i q where "queue L = Cont i # q" "i < length (tasks (eng L))"
    "stage (tasks (eng L) ! i) = Committed" "is_last (tasks (eng L) ! i)" "eng L' = then_resolve (eng L) i"
proof -
  obtain h q where q: "queue L = h # q" and L': "L' = run_job (L\<lparr>queue := q\<rparr>) h"
    using nx by (auto simp: loop_next_def split: list.splits)
  from r run_job_resolved [of "L\<lparr>queue := q\<rparr>" h] that q show ?thesis by (auto simp: L')
qed

lemma filter_last_index:
  assumes d: "distinct (map fst xs)" and i: "i < length (filter P xs)"
    and key: "fst (filter P xs ! i) = fst (last xs)"
  shows "Suc i = length (filter P xs)"
proof -
  let ?fs = "filter P xs"
  have "?fs ! i \<in> set ?fs" using i by (rule nth_mem)
  then have mem: "?fs ! i \<in> set xs" "P (?fs ! i)" by simp_all
  have ne: "xs \<noteq> []" using mem(1) by auto
  have "last xs \<in> set xs" using ne by simp
  then have "?fs ! i = last xs"
    using mem(1) key d by (metis eq_key_imp_eq_value surjective_pairing)
  then have P: "P (last xs)" using mem(2) by simp
  have "?fs = filter P (butlast xs) @ [last xs]"
    using P by (subst append_butlast_last_id [OF ne, symmetric]) (simp del: append_butlast_last_id)
  then have lf: "last ?fs = last xs" by simp
  have dist: "distinct (map fst ?fs)" using d by (rule distinct_map_filter)
  have "?fs \<noteq> []" using i by auto
  then have "last ?fs = ?fs ! (length ?fs - 1)" by (rule last_conv_nth)
  then have "map fst ?fs ! i = map fst ?fs ! (length ?fs - 1)"
    using key lf i by simp
  then have "i = length ?fs - 1"
    using nth_eq_iff_index_eq [OF dist, of i "length ?fs - 1"] i by simp
  with i show ?thesis by simp
qed

lemma last_task_index:
  assumes d: "distinct (map fst as)" and i: "i < length (tasks (replace_assets ds as))"
    and l: "is_last (tasks (replace_assets ds as) ! i)"
  shows "Suc i = length (tasks (replace_assets ds as))"
proof -
  let ?fas = "filter (\<lambda>(k, a). is_html k) as"
  have len: "length (tasks (replace_assets ds as)) = length ?fas"
    by (simp only: replace_assets_tasks length_map)
  with i have i': "i < length ?fas" by simp
  have "is_last (tasks (replace_assets ds as) ! i) = (fst (?fas ! i) = fst (last as))"
    using i' by (simp only: replace_assets_tasks nth_map) (simp add: case_prod_unfold)
  with l have "fst (?fas ! i) = fst (last as)" by simp
  from filter_last_index [OF d i' this] len show ?thesis by simp
qed

lemma fifo_inv_start:
  assumes "distinct (map fst as)"
  shows "fifo_inv (init_loop ds (\<lambda>_. False) as)"
proof -
  have "launched (replace_assets ds as)" using assms by (rule launched_replace_assets)
  then have "list_all (\<lambda>t. stage t = Pending) (tasks (replace_assets ds as))"
    by (auto simp: launched_def list_all_iff)
  then show ?thesis unfolding init_loop_def by (rule fifo_inv_init)
qed

lemma fifo_no_settle: "fifo_inv L \<Longrightarrow> loop_step L L' \<Longrightarrow> loop_next L = Some L'"
  by (auto simp: fifo_inv_def elim: loop_step.cases)

lemma loop_step_reachable:
  "reachable ds as (eng L) \<Longrightarrow> loop_step L L' \<Longrightarrow> reachable ds as (eng L')"
  using loop_step_eng [of L L'] by (auto simp: reachable_def)

text \<open>The step of the induction below: once \<open>resolve()\<close> has been called,
  every chain has committed or failed.\<close>

lemma fifo_wait_step:
  assumes d: "distinct (map fst as)" and inv: "fifo_inv L" and re: "reachable ds as (eng L)"
    and w: "resolved (eng L) \<longrightarrow> (\<forall>j < length (tasks (eng L)). settled (stage (tasks (eng L) ! j)))"
    and nx: "loop_next L = Some L'" and r': "resolved (eng L')"
  shows "\<forall>j < length (tasks (eng L')). settled (stage (tasks (eng L') ! j))"
proof (cases "resolved (eng L)")
  case True
  from loop_next_chain [OF nx] show ?thesis
  proof
    assume "chain_step (eng L) (eng L')"
    with w True show ?thesis by (auto simp: chain_step_length chain_step_settled)
  qed (use w True in simp)
next
  case False
  obtain i q where q: "queue L = Cont i # q" and i: "i < length (tasks (eng L))"
    and c: "stage (tasks (eng L) ! i) = Committed" and l: "is_last (tasks (eng L) ! i)"
    and L': "eng L' = then_resolve (eng L) i"
    using loop_next_resolved [OF nx False r'] by blast
  have ei: "engine_inv (replace_assets ds as) (eng L)" using re d by (rule reachable_inv)
  have ti: "task_inv (tasks (replace_assets ds as) ! i) (tasks (eng L) ! i)"
    using task_inv_nth [OF engine_invD(1) [OF ei] i] .
  have len: "length (tasks (eng L)) = length (tasks (replace_assets ds as))"
    using list_all2_lengthD [OF engine_invD(1) [OF ei]] by simp
  have "Suc i = length (tasks (eng L))"
    using last_task_index [OF d, of i ds] i l ti len by (simp add: task_inv_def)
  then have "settled (stage (tasks (eng L) ! k))" if "k < length (tasks (eng L))" "k \<noteq> i" for k
    using fifo_last_finish [OF inv q c] that by blast
  then show ?thesis
    using i by (auto simp: L' handler_tasks nth_list_update settled_def committed_def)
qed

text \<open>C4: With a data source whose promises are settled when they are
  returned, as \<open>RemoteData\<close>'s \<open>Promise.resolve\<close>, and the last key an HTML
  file, \<open>resolve()\<close> is called only when every chain has written its asset or
  failed: the job queue runs the chains in rounds, and the chain of the last key
  is the last in every round.  The specification's P5 holds for the shipped data
  source.\<close>

theorem remote_completion_waits:
  assumes d: "distinct (map fst as)" and h: "is_html (fst (last as))"
    and r: "loop_reachable ds (\<lambda>_. False) as L" and res: "resolved (eng L)"
  shows "\<forall>j < length (tasks (eng L)). committed (stage (tasks (eng L) ! j)) \<or> stage (tasks (eng L) ! j) = Failed"
proof -
  have "fifo_inv L \<and> reachable ds as (eng L) \<and>
      (resolved (eng L) \<longrightarrow> (\<forall>j < length (tasks (eng L)). settled (stage (tasks (eng L) ! j))))"
    using r unfolding loop_reachable_def
  proof (induction rule: rtranclp_induct)
    case base
    show ?case
      using fifo_inv_start [OF d] h by (simp add: reachable_def replace_assets_resolved)
  next
    case (step L1 L2)
    have inv1: "fifo_inv L1" and re1: "reachable ds as (eng L1)"
      and w1: "resolved (eng L1) \<longrightarrow> (\<forall>j < length (tasks (eng L1)). settled (stage (tasks (eng L1) ! j)))"
      using step.IH by blast+
    have nx: "loop_next L1 = Some L2" using fifo_no_settle [OF inv1 step(2)] .
    have "fifo_inv L2" by (rule fifo_inv_next [OF inv1 nx])
    moreover have "reachable ds as (eng L2)" using re1 step(2) by (rule loop_step_reachable)
    moreover have "resolved (eng L2) \<longrightarrow> (\<forall>j < length (tasks (eng L2)). settled (stage (tasks (eng L2) ! j)))"
      using fifo_wait_step [OF d inv1 re1 w1 nx] by blast
    ultimately show ?case by blast
  qed
  with res show ?thesis by (simp add: settled_def)
qed

lemma fifo_inv_empty_final: "fifo_inv L \<Longrightarrow> queue L = [] \<Longrightarrow> final (eng L)"
  unfolding final_def list_all_length
proof (intro allI impI)
  fix k assume inv: "fifo_inv L" and q: "queue L = []" and k: "k < length (tasks (eng L))"
  then have "chain_jobs_ok (eng L) [] (left L) k" by (simp add: fifo_inv_def)
  then show "stage (tasks (eng L) ! k) = Finished \<or> stage (tasks (eng L) ! k) = Failed"
    by (cases "stage (tasks (eng L) ! k)") (auto simp: chain_jobs_ok_def elem_count_def)
qed

lemma run_loop_inv: "fifo_inv L \<Longrightarrow> fifo_inv (run_loop L)"
proof (induction L rule: run_loop.induct)
  case (1 L)
  show ?case
  proof (cases "loop_next L")
    case (Some L')
    with "1.IH" [OF Some] "1.prems" fifo_inv_next show ?thesis by (simp add: run_loop.simps [of L])
  qed (simp add: run_loop.simps [of L] "1.prems")
qed

text \<open>C5: When no fetch is late, running the job queue until it is empty is
  a complete run: every chain has finished or failed, and the assets and the
  completion flag are those of the reference schedule \<open>drain\<close>, which runs
  each chain to its end in launch order.\<close>

theorem fifo_schedule_agrees:
  assumes d: "distinct (map fst as)"
  shows "final (eng (run_loop (init_loop ds (\<lambda>_. False) as))) \<and>
    assets (eng (run_loop (init_loop ds (\<lambda>_. False) as))) = assets (drain (replace_assets ds as)) \<and>
    resolved (eng (run_loop (init_loop ds (\<lambda>_. False) as))) = resolved (drain (replace_assets ds as))"
proof -
  let ?L = "run_loop (init_loop ds (\<lambda>_. False) as)"
  let ?s0 = "replace_assets ds as"
  have inv: "fifo_inv ?L" using fifo_inv_start [OF d] by (rule run_loop_inv)
  have fin: "final (eng ?L)" using fifo_inv_empty_final [OF inv] run_loop_steps by blast
  have "reachable ds as (eng ?L)"
    using loop_steps_eng [OF conjunct1 [OF run_loop_steps [of "init_loop ds (\<lambda>_. False) as"]]]
    by (simp add: reachable_def)
  then have ei: "engine_inv ?s0 (eng ?L)" using d by (rule reachable_inv)
  have ed: "engine_inv ?s0 (drain ?s0)" using drain_reachable [OF d] d by (rule reachable_inv)
  have fd: "final (drain ?s0)" using d by (rule drain_terminal)
  have "map_of (assets (eng ?L)) = map_of (assets (drain ?s0))"
    using final_outcome_assets [OF ei fin d] final_outcome_assets [OF ed fd d] by auto
  moreover have "map fst (assets (eng ?L)) = map fst (assets (drain ?s0))"
    using engine_invD(2) [OF ei] engine_invD(2) [OF ed] by simp
  moreover have "distinct (map fst (assets (eng ?L)))"
    using engine_invD(2) [OF ei] d by simp
  ultimately have "assets (eng ?L) = assets (drain ?s0)"
    by (intro alist_eqI) simp_all
  moreover have "resolved (eng ?L) = resolved (drain ?s0)"
    using final_outcome_resolved [OF ei fin d] final_outcome_resolved [OF ed fd d] by simp
  ultimately show ?thesis using fin by simp
qed

end
