(* ===== verification/Spec2Isabelle.thy ===== *)
theory Spec2Isabelle
  imports Refinement Plugin FifoOrder
begin

text \<open>
  \<^bold>\<open>A verification development of the InjectTemplate webpack plugin.\<close>

  \<^bold>\<open>The program.\<close>  src/InjectTemplate.js defines \<open>RemoteData\<close>, a simulated
  asynchronous data source (lines 5--11), and the plugin class \<open>InjectTemplate\<close>.
  Its \<open>apply\<close> registers \<open>replaceAssets\<close> on webpack's \<open>processAssets\<close> hook
  (lines 19--38).  \<open>replaceAssets\<close> (lines 41--106) returns a promise whose
  executor loops over \<open>Object.keys(assets)\<close>: a key not matching
  \<open>/.*\.html$/\<close> is skipped, and if it is the last key \<open>resolve()\<close> is called at
  once; for an HTML key the content is scanned with
  \<open>/<!-- replace="(\S*?)" -->/g\<close>, every match gets the cached value or a fresh
  \<open>RemoteData(name)\<close> promise, and a chain \<open>Promise.all(..).then(..).then(..).then(..)\<close>
  is launched that fills the cache and replaces each tag (first occurrence, via
  \<open>String.prototype.replace\<close>), writes the new asset object, and calls
  \<open>resolve()\<close> if its key is the last key.  src/webpack.config.js configures the host
  build: an entry, an output bundle \<open>index.js\<close>, html-webpack-plugin emitting
  \<open>index.html\<close>, and \<open>new InjectTemplate({url: ..})\<close>.

  \<^bold>\<open>The theories.\<close>
  \<^item> \<open>Prelude\<close>: JavaScript values (\<open>jsval\<close>: \<open>undefined\<close>, a string, one of the
    functions a plain object inherits, or \<open>Object.prototype\<close>), settled fetches
    (\<open>fetch_result\<close>), data sources (\<open>datasource\<close>, a settled outcome per name),
    truthiness, \<open>ToString\<close>, \<open>TypeError\<close>, and the prefix test \<open>starts_with\<close>.
  \<^item> \<open>JsObject\<close>: property reads on the plain objects \<open>cache\<close> and \<open>data\<close>
    (\<open>object_get\<close>: own property, else the member inherited from
    \<open>Object.prototype\<close> (\<open>object_proto\<close>), else \<open>undefined\<close>), and what
    \<open>replace\<close> gets when it calls an inherited function (\<open>call_replacer\<close>).
  \<^item> \<open>Marker\<close>: the regular expression and \<open>matchAll\<close> (line 63) as a backtracking
    matcher (\<open>lazy_name\<close>, \<open>match_at\<close>, \<open>match_all\<close>), and the segmentation
    \<open>pieces\<close> of a content into literal code units and markers.
  \<^item> \<open>JsReplace\<close>: \<open>String.prototype.replace\<close> with a string pattern (line 84):
    first occurrence (\<open>split_first\<close>), \<open>GetSubstitution\<close> (\<open>get_subst\<close>) for a
    value, a call for a function; the result is the new string or the
    \<open>TypeError\<close> the call throws.
  \<^item> \<open>DataSource\<close>: \<open>RemoteData\<close> (\<open>remote_data\<close>, \<open>remote_source\<close>).
  \<^item> \<open>Engine\<close>: the asset objects, the eligibility test \<open>is_html\<close> (line 52), the
    state of one call (\<open>engine\<close>: the asset list in key order, the cache, the
    launched chains, whether \<open>resolve()\<close> was called, the names fetched), the
    synchronous loop (\<open>replace_loop\<close>, \<open>replace_assets\<close>), the three continuations
    of a chain (\<open>then_substitute\<close>, which fails the chain when a \<open>replace\<close>
    throws, \<open>then_commit\<close>, \<open>then_resolve\<close>) and the rejection of
    \<open>Promise.all\<close> (\<open>then_reject\<close>), and the step relation
    \<open>chain_step\<close> that runs any ready continuation of any chain: the microtask
    queue's order is left open, which covers every order in which the fetches
    settle.
  \<^item> \<open>EventLoop\<close>: the order the ECMAScript job queue imposes.  A job is a
    promise reaction (\<open>Elem\<close>: \<open>Promise.all\<close> receiving one tag's value;
    \<open>Cont\<close>: the next \<open>then\<close> callback of a chain); \<open>launch_loop\<close> and
    \<open>init_loop\<close> give the queue the synchronous loop leaves, \<open>run_job\<close> runs
    the head job and appends the reactions of the promise it settles, and
    \<open>loop_step\<close> adds the settlement of a fetch that arrives after the loop
    (the parameter \<open>late\<close>; none for \<open>RemoteData\<close>).  Every job is a step
    of \<open>chain_step\<close> or changes nothing (\<open>loop_steps_eng\<close>), and every run
    is bounded by \<open>loop_measure\<close> (\<open>loop_run_bound\<close>).
  \<^item> \<open>FifoOrder\<close>: with no late fetch, the invariant \<open>fifo_inv\<close> of the queue
    (sorted by the stamp \<open>(round, chain)\<close>, the last stamp at most one round
    after the head, one pending job per running chain), from which the
    completion of the last key's chain comes after every other chain has
    committed (\<open>remote_completion_waits\<close>) and the queue's run ends where
    \<open>drain\<close> ends (\<open>fifo_schedule_agrees\<close>).
  \<^item> \<open>Chains\<close>: the invariant \<open>engine_inv\<close> of every state reachable from the end
    of the loop, proved one continuation at a time.
  \<^item> \<open>Runs\<close>: the schedule \<open>drain\<close> (every chain to its end, in launch order), its
    termination, the characterisation of final states, what a finished run
    leaves (\<open>injected\<close>), and the measure \<open>work\<close> that bounds every run.
  \<^item> \<open>Refinement\<close>: an abstract specification of \<open>replaceAssets\<close> (rewrite each HTML
    asset at most once with its full substitution; signal completion once the
    last key is rewritten, or from the start when the last key is not HTML, as
    the code does), the abstraction \<open>abs_state\<close>, and the proof that
    \<open>chain_step\<close> simulates it with stuttering (\<open>refines_spec\<close>).
  \<^item> \<open>Plugin\<close>: the constructor (\<open>new_inject_template\<close>), \<open>apply\<close>
    (\<open>apply_plugin\<close>, tapping \<open>thisCompilation\<close> and then \<open>processAssets\<close>
    with \<open>replaceAssets\<close>), the host's hook lists, and src/webpack.config.js as
    a record (\<open>webpack_cfg\<close>).
  \<^item> This theory: the properties of \<open>replaceAssets\<close> as a whole, and the examples of
    the specification evaluated on the model.

  \<^bold>\<open>What is shown.\<close>  The scanner segments the content exactly (roundtrip, no
  missed marker), and its lazy group captures the same name as the greedy one of
  the specification.  The eligibility test is exactly the suffix test
  \<open>.html\<close> of the specification (\<open>is_html_iff_suffix\<close>).  \<open>replace\<close>
  rewrites only the first occurrence, literally unless the value holds
  \<open>$\<close>-patterns.  For \<open>replaceAssets\<close>: every interleaving of the chains
  terminates and none gets stuck before every chain has finished or failed, all
  interleavings end with the same assets, no asset is ever partially rewritten,
  non-HTML assets and the key order are never touched, the cache only holds
  fetched values, no run is longer than three steps per HTML asset
  (\<open>run_length_bound\<close>), every run is the image of a run of the abstract
  specification (\<open>refines_spec\<close>), an asset with one marker gets exactly that
  marker replaced in place (\<open>single_marker_in_place\<close>), and an object with no HTML key completes at
  once with nothing fetched (\<open>no_html_immediate\<close>, the specification's P1).
  Against the specification the model exhibits: completion before any
  substitution when the last key is not HTML (\<open>resolve_before_substitution\<close>),
  completion tied to the last key rather than the last chain
  (\<open>completion_signal\<close>), so that with two pages, once the first page's
  fetch settles after the loop, the promise resolves while that page is
  unrewritten (\<open>completion_before_other_page\<close>, P5); with \<open>RemoteData\<close>
  itself, whose promises are settled when returned, the job queue happens to
  run the last key's chain last in every round and P5 holds
  (\<open>remote_completion_waits\<close>), so the defect is masked by the simulated
  source; no completion
  at all for an empty asset set (\<open>empty_never_resolves\<close>) or a failing last
  asset (\<open>rejected_last_never_resolves\<close>), success reported despite a failed
  fetch (\<open>rejection_unreported\<close>), one fetch per occurrence instead of per name
  (\<open>every_occurrence_fetched\<close>), a value holding a marker that takes the
  replacement meant for the page's marker (not proved in general, see below),
  \<open>undefined\<close> inserted for unknown names (\<open>unknown_name_undefined\<close>),
  markers named after \<open>Object.prototype\<close> members never fetched and replaced by
  odd texts (\<open>inherited_members_text\<close>) or making the chain throw, so that the
  asset keeps its marker and a last asset never completes
  (\<open>inherited_member_throws\<close>),
  \<open>$&\<close> expanded in values (\<open>js_replace_dollar_amp\<close>), and the
  configuration's \<open>url\<close> option never read (the handler ignores
  \<open>this.options\<close>).  With several markers the first-occurrence replacement is
  not in place in general (a fetched value that holds a marker takes the
  replacement meant for the page's marker), so the in-place results are proved
  for a single marker only.

  \<^bold>\<open>Choices and limits.\<close>  Strings are lists of 8-bit code units; the regular
  expression's \<open>\s\<close> is restricted to the whitespace among them.  The asset
  object is an association list in \<open>Object.keys\<close> order with distinct keys (the
  assets passed to the hook and \<open>compilation.assets\<close> are the same object).  A
  data source is deterministic per name.  Webpack is modelled only as far as
  its hooks are used: a hook is the list of its taps in registration order, and
  a new compilation runs the \<open>thisCompilation\<close> taps; when and how often the
  host fires \<open>processAssets\<close> (including the repeated calls that
  \<open>additionalAssets\<close> asks for), html-webpack-plugin's templating and
  minification, \<open>path.resolve\<close> and \<open>process.env\<close> (parameters of
  \<open>webpack_cfg\<close>), and what the host process does with a rejected promise
  nobody handles (Node 15 and later terminate the process by default, so the
  rejections this model shows unreported may end the build instead) are not
  modelled.  Writing \<open>cache[name]\<close> is modelled as adding an own property; for
  \<open>__proto__\<close> it would call a setter, but that write is never reached,
  because \<open>cache.__proto__\<close> is always truthy.  Inherited members are the
  twelve of \<open>Object.prototype\<close> in current engines.  In the job queue the
  reactions that only pass a rejection down a failed chain are left out: they
  change no state and, being appended after the jobs already queued, do not
  reorder the others; jobs of other code of the host are left out for the same
  reason.  When a late fetch settles is left open (any order, once the
  queue is empty).  No fuel is needed: every loop of the code is structural or
  decreases a length, the microtask phase ends after at most three
  continuations per chain (the measure \<open>work\<close>), and the job queue after at
  most \<open>loop_measure\<close> steps; \<open>run_loop\<close> is a total function by that measure.

  \<^bold>\<open>Not modelled.\<close>  Lines 1--4, 12, 14 and the other comments of
  src/InjectTemplate.js, and \<open>module.exports\<close> (line 109), which only hands
  the class to the \<open>require\<close> of src/webpack.config.js; lines 1--5 of
  src/webpack.config.js, the \<open>require\<close> calls of \<open>path\<close> and
  html-webpack-plugin, libraries the configuration only calls.
\<close>

section \<open>Example asset objects\<close>

definition demo_page :: string where
  \<open>demo_page = ''<p><!-- replace="header" --></p>''\<close>

definition demo_site :: "(key \<times> asset) list" where
  "demo_site = [(''index.html'', mk_asset demo_page), (''main.js'', mk_asset ''x'')]"

definition demo_fail :: "(key \<times> asset) list" where
  \<open>demo_fail = [(''a.html'', mk_asset ''<!-- replace="x" -->'')]\<close>

definition demo_bad :: string where
  \<open>demo_bad = ''<b><!-- replace="bad" --></b>''\<close>

definition demo_partial :: "(key \<times> asset) list" where
  "demo_partial = [(''a.html'', mk_asset demo_bad), (''b.html'', mk_asset ''plain'')]"

definition demo_source :: datasource where
  "demo_source n = (if n = ''bad'' then Rejected else Resolved (Str ''ok''))"

definition demo_twice :: "(key \<times> asset) list" where
  \<open>demo_twice = [(''a.html'', mk_asset ''<!-- replace="header" -->''),
                 (''b.html'', mk_asset ''<!-- replace="header" -->'')]\<close>

definition static_site :: "(key \<times> asset) list" where
  \<open>static_site = [(''style.css'', mk_asset ''<!-- replace="header" -->''), (''main.js'', mk_asset ''x'')]\<close>

definition demo_pages :: "(key \<times> asset) list" where
  "demo_pages = [(''a.html'', mk_asset demo_page), (''b.html'', mk_asset ''<i>b</i>'')]"

text \<open>A data source whose answer for \<open>header\<close> arrives after the synchronous
  loop, as a request over the network does.\<close>

definition header_late :: "name \<Rightarrow> bool" where
  "header_late n \<longleftrightarrow> n = ''header''"

definition throw_site :: "(key \<times> asset) list" where
  \<open>throw_site = [(''index.html'', mk_asset ''<h1><!-- replace="hasOwnProperty" --></h1><!-- replace="header" -->'')]\<close>

section \<open>Completion of replaceAssets\<close>

text \<open>C1: When the last key of the asset object is not an HTML file, \<open>replaceAssets\<close>
  resolves its promise during the synchronous loop: the promise is already
  resolved while every HTML asset is still unsubstituted and every chain is
  still waiting for its data (the specification requires completion only after
  all eligible assets are rewritten).\<close>

theorem resolve_before_substitution:
  assumes "as \<noteq> []" and "\<not> is_html (fst (last as))"
  shows "resolved (replace_assets ds as) \<and> assets (replace_assets ds as) = as \<and>
         list_all (\<lambda>t. stage t = Pending) (tasks (replace_assets ds as))"
  using assms by (auto simp: replace_assets_resolved list_all_iff initial_task_set)

theorem resolve_before_substitution_witness:
  "resolved (replace_assets remote_source demo_site) \<and> assets (replace_assets remote_source demo_site) = demo_site \<and>
   list_all (\<lambda>t. stage t = Pending) (tasks (replace_assets remote_source demo_site))"
proof -
  have "\<not> is_html (fst (last demo_site))" by (simp add: demo_site_def) code_simp
  then show ?thesis using resolve_before_substitution [of demo_site] by (simp add: demo_site_def)
qed

text \<open>C2: In every state of a run, the promise has been resolved exactly when the
  asset object is non-empty and either its last key is not an HTML file or the
  chain of the last key (and no other) has run to its end: completion tracks the
  last key in iteration order, not the last chain to finish.\<close>

theorem completion_signal:
  assumes r: "reachable ds as s" and d: "distinct (map fst as)"
  shows "resolved s \<longleftrightarrow> as \<noteq> [] \<and>
    (\<not> is_html (fst (last as)) \<or> (\<exists>t \<in> set (tasks s). tkey t = fst (last as) \<and> stage t = Finished))"
proof -
  let ?s0 = "replace_assets ds as"
  have inv: "engine_inv ?s0 s" using r d by (rule reachable_inv)
  have l2: "list_all2 task_inv (tasks ?s0) (tasks s)" by (rule engine_invD(1) [OF inv])
  have last_eq: "\<And>j. j < length (tasks s) \<Longrightarrow> is_last (tasks s ! j) = (tkey (tasks s ! j) = fst (last as))"
  proof -
    fix j
    assume j: "j < length (tasks s)"
    have ti: "task_inv (tasks ?s0 ! j) (tasks s ! j)" using l2 j by (rule task_inv_nth)
    have "tasks ?s0 ! j \<in> set (tasks ?s0)" using j list_all2_lengthD [OF l2] by simp
    then have "is_last (tasks ?s0 ! j) = (tkey (tasks ?s0 ! j) = fst (last as))"
      by (rule initial_task_entry) simp
    with ti show "is_last (tasks s ! j) = (tkey (tasks s ! j) = fst (last as))"
      by (simp add: task_inv_def)
  qed
  have "(\<exists>j < length (tasks s). is_last (tasks s ! j) \<and> stage (tasks s ! j) = Finished) =
        (\<exists>t \<in> set (tasks s). tkey t = fst (last as) \<and> stage t = Finished)"
    using last_eq by (metis in_set_conv_nth)
  then have "resolved s = (resolved ?s0 \<or> (\<exists>t \<in> set (tasks s). tkey t = fst (last as) \<and> stage t = Finished))"
    using engine_invD(5) [OF inv] by simp
  moreover have "as = [] \<Longrightarrow> tasks s = []"
    using list_all2_lengthD [OF l2] by (simp add: replace_assets_tasks)
  ultimately show ?thesis by (auto simp: replace_assets_resolved)
qed

theorem completion_signal_witness:
  "resolved (drain (replace_assets remote_source demo_site))"
proof -
  have d: "distinct (map fst demo_site)" by (simp add: demo_site_def)
  have "\<not> is_html (fst (last demo_site))" by (simp add: demo_site_def) code_simp
  with completion_signal [OF drain_reachable [OF d] d] show ?thesis by (simp add: demo_site_def)
qed

text \<open>C3: Specification property P5 fails even when every key is an HTML file,
  once a fetch settles after the loop, as a network request does: with two
  pages whose first waits for \<open>header\<close>, the job queue runs the whole chain
  of the last key, the promise is resolved, and the first page still holds its
  marker while its fetch has yet to settle.  (With \<open>RemoteData\<close>, whose promises
  are settled at once, this cannot happen: \<open>FifoOrder.remote_completion_waits\<close>.)\<close>

theorem completion_before_other_page:
  "\<exists>L. loop_reachable remote_source header_late demo_pages L \<and> resolved (eng L) \<and>
       map_of (assets (eng L)) ''a.html'' = Some (mk_asset demo_page) \<and> (\<exists>L'. loop_step L L')"
proof -
  let ?L = "run_loop (init_loop remote_source header_late demo_pages)"
  have r: "loop_reachable remote_source header_late demo_pages ?L"
    using run_loop_steps by (simp add: loop_reachable_def)
  have p: "resolved (eng ?L) \<and> map_of (assets (eng ?L)) ''a.html'' = Some (mk_asset demo_page)"
    by (simp add: demo_pages_def header_late_def) code_simp
  have "queue ?L = []" using run_loop_steps by blast
  moreover have "Elem 0 0 \<in> set (unsettled ?L)"
    by (simp add: demo_pages_def header_late_def) code_simp
  ultimately have "loop_step ?L (?L\<lparr>queue := [Elem 0 0], unsettled := remove1 (Elem 0 0) (unsettled ?L)\<rparr>)"
    by (rule loop_step.settle)
  with r p show ?thesis by blast
qed



text \<open>C7: When the last key is an HTML file and one of its markers names a value
  (not a member of \<open>Object.prototype\<close>) whose fetch rejects, the promise is never resolved: the rejection of the chain
  is not propagated and nothing else calls \<open>resolve()\<close>.\<close>

theorem rejected_last_never_resolves:
  assumes r: "reachable ds as s" and d: "distinct (map fst as)" and ne: "as \<noteq> []"
    and h: "is_html (fst (last as))"
    and n: "n \<in> set (map snd (match_all (source (snd (last as)))))"
    and o: "object_proto n = None" and rej: "ds n = Rejected"
  shows "\<not> resolved s"
  using reachable_resolved [OF r d] injected_rejected [where ds = ds, OF n o rej] h by blast

theorem rejected_last_never_resolves_witness:
  "\<not> resolved (drain (replace_assets (\<lambda>_. Rejected) demo_fail))"
proof -
  have d: "distinct (map fst demo_fail)" by (simp add: demo_fail_def)
  have h: "is_html (fst (last demo_fail))" by (simp add: demo_fail_def) code_simp
  have n: "''x'' \<in> set (map snd (match_all (source (snd (last demo_fail)))))"
    by (simp add: demo_fail_def mk_asset_def) code_simp
  have o: "object_proto ''x'' = None" by (simp add: object_proto.simps)
  show ?thesis
    using rejected_last_never_resolves [OF drain_reachable [OF d] d _ h n o] by (simp add: demo_fail_def)
qed

text \<open>C8: A rejected fetch for an HTML asset that is not the last one is not
  reported: once all chains have run, the promise is resolved (when the last
  asset's own fetches succeed) and the failed asset keeps its original content,
  markers included.\<close>

theorem rejection_unreported:
  assumes d: "distinct (map fst as)" and ka: "(k, a) \<in> set as" and h: "is_html k"
    and n: "n \<in> set (map snd (match_all (source a)))"
    and o: "object_proto n = None" and rej: "ds n = Rejected"
    and lastok: "injected ds (snd (last as)) \<noteq> None"
  shows "resolved (drain (replace_assets ds as)) \<and> map_of (assets (drain (replace_assets ds as))) k = Some a"
proof -
  have inv: "engine_inv (replace_assets ds as) (drain (replace_assets ds as))"
    using drain_reachable [OF d] d by (rule reachable_inv)
  note fin = drain_terminal [OF d]
  have "injected ds a = None" using n o rej by (rule injected_rejected [where ds = ds])
  moreover have "map_of as k = Some a" using d ka by simp
  moreover have "as \<noteq> []" using ka by auto
  ultimately show ?thesis
    using final_outcome_assets [OF inv fin d, of k] final_outcome_resolved [OF inv fin d] h lastok
    by simp
qed

theorem rejection_unreported_witness:
  "resolved (drain (replace_assets demo_source demo_partial)) \<and>
   map_of (assets (drain (replace_assets demo_source demo_partial))) ''a.html'' = Some (mk_asset demo_bad)"
proof -
  have d: "distinct (map fst demo_partial)" by (simp add: demo_partial_def)
  have ka: "(''a.html'', mk_asset demo_bad) \<in> set demo_partial" by (simp add: demo_partial_def)
  have h: "is_html ''a.html''" by code_simp
  have n: "''bad'' \<in> set (map snd (match_all (source (mk_asset demo_bad))))"
    by (simp add: demo_bad_def mk_asset_def) code_simp
  have o: "object_proto ''bad'' = None" by (simp add: object_proto.simps)
  have r: "demo_source ''bad'' = Rejected" by (simp add: demo_source_def)
  have "match_all ''plain'' = []" by code_simp
  then have l: "injected demo_source (snd (last demo_partial)) \<noteq> None"
    by (simp add: demo_partial_def injected_def subst_outcome_def fresh_tags_def mk_asset_def)
  show ?thesis using rejection_unreported [OF d ka h n o r l] .
qed

text \<open>C9: The cache never saves a fetch: in every state of a run the data source
  has been called once for every marker occurrence of every HTML asset, in
  iteration and match order, repeated names included, except for names of
  members of \<open>Object.prototype\<close>, which the cache appears to hold (the
  specification asks for at most one fetch per name and run).\<close>

theorem every_occurrence_fetched:
  assumes "reachable ds as s" and "distinct (map fst as)"
  shows "fetches s = concat (map (\<lambda>(k, a). if is_html k
                                      then filter (\<lambda>n. object_proto n = None) (map snd (match_all (source a)))
                                      else []) as)"
  using engine_invD(6) [OF reachable_inv [OF assms]] by (simp add: replace_assets_fetches)

theorem every_occurrence_fetched_witness:
  "fetches (drain (replace_assets remote_source demo_twice)) = [''header'', ''header'']"
proof -
  have d: "distinct (map fst demo_twice)" by (simp add: demo_twice_def)
  have "concat (map (\<lambda>(k, a). if is_html k
                                 then filter (\<lambda>n. object_proto n = None) (map snd (match_all (source a)))
                                 else []) demo_twice)
        = [''header'', ''header'']"
    by (simp add: demo_twice_def mk_asset_def) code_simp
  with every_occurrence_fetched [OF drain_reachable [OF d] d] show ?thesis by simp
qed

text \<open>C13: Bound on the length of a run: no sequence of continuations from the
  end of the synchronous loop has more than three steps per HTML asset.\<close>

theorem run_length_bound:
  assumes "(chain_step ^^ n) (replace_assets ds as) s"
  shows "n \<le> 3 * length (filter (\<lambda>(k, a). is_html k) as)"
  using relpowp_work [OF assms] by (simp add: work_replace_assets)

theorem run_length_bound_witness:
  "(3::nat) \<le> 3 * length (filter (\<lambda>(k, a). is_html k) demo_site)"
proof -
  let ?s0 = "replace_assets remote_source demo_site"
  let ?s1 = "then_substitute ?s0 0 [Str ''<div>THIS IS HEADER</div>'']"
  let ?s2 = "then_commit ?s1 0"
  let ?s3 = "then_resolve ?s2 0"
  have t0: "0 < length (tasks ?s0)" "stage (tasks ?s0 ! 0) = Pending"
    "all_resolved (tags (tasks ?s0 ! 0)) = Some [Str ''<div>THIS IS HEADER</div>'']"
    by (simp_all add: demo_site_def demo_page_def) code_simp+
  have st1: "chain_step ?s0 ?s1" using t0 by (rule chain_step.substitute)
  have t1: "0 < length (tasks ?s1)" "stage (tasks ?s1 ! 0) = Substituted"
    by (simp_all add: demo_site_def demo_page_def) code_simp+
  have st2: "chain_step ?s1 ?s2" using t1 by (rule chain_step.commit)
  have t2: "0 < length (tasks ?s2)" "stage (tasks ?s2 ! 0) = Committed"
    by (simp_all add: demo_site_def demo_page_def) code_simp+
  have st3: "chain_step ?s2 ?s3" using t2 by (rule chain_step.finish)
  have "(chain_step ^^ 3) ?s0 ?s3"
    using st1 st2 st3 by (simp add: numeral_3_eq_3 relpowp_Suc_I2 del: relpowp.simps)
  from run_length_bound [OF this] show ?thesis .
qed

text \<open>C14: No run gets stuck half-way: from every state of a run some order of
  the remaining continuations leads to a state where every chain has finished
  or failed.\<close>

theorem completion_reachable:
  assumes "reachable ds as s"
  shows "\<exists>u. chain_step\<^sup>*\<^sup>* s u \<and> reachable ds as u \<and> final u"
proof -
  obtain u where u: "chain_step\<^sup>*\<^sup>* s u" "\<nexists>v. chain_step u v" using reaches_stuck by blast
  with assms have "reachable ds as u" by (simp add: reachable_def)
  with u show ?thesis unfolding final_iff_stuck by blast
qed

theorem completion_reachable_witness:
  "\<exists>u. chain_step\<^sup>*\<^sup>* (replace_assets remote_source demo_site) u \<and>
       reachable remote_source demo_site u \<and> final u"
  using completion_reachable [of remote_source demo_site "replace_assets remote_source demo_site"]
  by (simp add: reachable_def)
text \<open>C15: The outcome of a finished run: every asset entry is unchanged unless it is
  an HTML asset all of whose fetches resolved, which then holds its content with
  every marker substituted in match order; the promise is resolved exactly when
  the object is non-empty and the last asset is not HTML or its fetches all
  resolved.\<close>

theorem run_outcome:
  assumes d: "distinct (map fst as)"
  shows "map_of (assets (drain (replace_assets ds as))) k =
      (case map_of as k of
         None \<Rightarrow> None
       | Some a \<Rightarrow> if is_html k then (case injected ds a of None \<Rightarrow> Some a | Some a' \<Rightarrow> Some a') else Some a) \<and>
    (resolved (drain (replace_assets ds as)) \<longleftrightarrow>
      as \<noteq> [] \<and> (\<not> is_html (fst (last as)) \<or> injected ds (snd (last as)) \<noteq> None))"
proof -
  have inv: "engine_inv (replace_assets ds as) (drain (replace_assets ds as))"
    using drain_reachable [OF d] d by (rule reachable_inv)
  show ?thesis
    using final_outcome_assets [OF inv drain_terminal [OF d] d]
      final_outcome_resolved [OF inv drain_terminal [OF d] d] by simp
qed

theorem run_outcome_witness:
  "resolved (drain (replace_assets remote_source demo_site)) \<and>
   map_of (assets (drain (replace_assets remote_source demo_site))) ''main.js'' = Some (mk_asset ''x'')"
proof -
  have d: "distinct (map fst demo_site)" by (simp add: demo_site_def)
  have "\<not> is_html ''main.js''" by code_simp
  with run_outcome [OF d, of remote_source "''main.js''"] show ?thesis by (simp add: demo_site_def)
qed

text \<open>C17: The interleaving of the chains does not matter: every reachable state in
  which no continuation is left has the same assets and the same completion
  flag as the launch-order run.\<close>

theorem terminal_states_agree:
  assumes r: "reachable ds as s" and d: "distinct (map fst as)" and stuck: "\<nexists>u. chain_step s u"
  shows "assets s = assets (drain (replace_assets ds as)) \<and> resolved s = resolved (drain (replace_assets ds as))"
proof -
  let ?s0 = "replace_assets ds as"
  let ?f = "drain ?s0"
  have inv: "engine_inv ?s0 s" using r d by (rule reachable_inv)
  have invf: "engine_inv ?s0 ?f" using drain_reachable [OF d] d by (rule reachable_inv)
  have fin: "final s" using stuck by (simp add: final_iff_stuck)
  have finf: "final ?f" using d by (rule drain_terminal)
  have keys: "map fst (assets s) = map fst (assets ?f)"
    using engine_invD(2) [OF inv] engine_invD(2) [OF invf] by simp
  have "map_of (assets s) = map_of (assets ?f)"
    using final_outcome_assets [OF inv fin d] final_outcome_assets [OF invf finf d] by (simp add: fun_eq_iff)
  moreover have "distinct (map fst (assets s))" using engine_invD(2) [OF inv] d by simp
  ultimately have "assets s = assets ?f" using keys by (simp add: alist_eqI)
  moreover have "resolved s = resolved ?f"
    using final_outcome_resolved [OF inv fin d] final_outcome_resolved [OF invf finf d] by simp
  ultimately show ?thesis by simp
qed

theorem terminal_states_agree_witness:
  "reachable remote_source demo_pages (eng (run_loop (init_loop remote_source (\<lambda>_. False) demo_pages))) \<and>
   (\<nexists>u. chain_step (eng (run_loop (init_loop remote_source (\<lambda>_. False) demo_pages))) u) \<and>
   assets (eng (run_loop (init_loop remote_source (\<lambda>_. False) demo_pages))) =
     assets (drain (replace_assets remote_source demo_pages)) \<and>
   resolved (eng (run_loop (init_loop remote_source (\<lambda>_. False) demo_pages))) =
     resolved (drain (replace_assets remote_source demo_pages))"
proof -
  let ?L = "run_loop (init_loop remote_source (\<lambda>_. False) demo_pages)"
  have d: "distinct (map fst demo_pages)" by (simp add: demo_pages_def)
  have r: "reachable remote_source demo_pages (eng ?L)"
    using loop_steps_eng [OF conjunct1 [OF run_loop_steps [of "init_loop remote_source (\<lambda>_. False) demo_pages"]]]
    by (simp add: reachable_def)
  have "final (eng ?L)"
    using fifo_inv_empty_final [OF run_loop_inv [OF fifo_inv_start [OF d]]] run_loop_steps by blast
  then have st: "\<nexists>u. chain_step (eng ?L) u" by (simp add: final_iff_stuck)
  from r st terminal_states_agree [OF r d st] show ?thesis by blast
qed

text \<open>C19: In every state of a run, every asset entry holds either its original
  content or, for an HTML asset whose fetches all resolved, its fully
  substituted content; no partially substituted asset is ever committed.\<close>

theorem asset_entries:
  assumes "reachable ds as s" and "distinct (map fst as)" and "map_of as k = Some a"
  shows "map_of (assets s) k = Some a \<or> (is_html k \<and> map_of (assets s) k = injected ds a)"
  using reachable_asset_entry [OF assms] .

theorem asset_entries_witness:
  "map_of (assets (drain (replace_assets remote_source demo_site))) ''index.html'' = Some (mk_asset demo_page) \<or>
   (is_html ''index.html'' \<and>
    map_of (assets (drain (replace_assets remote_source demo_site))) ''index.html'' = injected remote_source (mk_asset demo_page))"
proof -
  have d: "distinct (map fst demo_site)" by (simp add: demo_site_def)
  have "map_of demo_site ''index.html'' = Some (mk_asset demo_page)" by (simp add: demo_site_def)
  from asset_entries [OF drain_reachable [OF d] d this] show ?thesis .
qed

text \<open>C20: Assets whose key does not end in \<open>.html\<close> are never modified.\<close>

theorem ineligible_untouched:
  assumes r: "reachable ds as s" and d: "distinct (map fst as)" and k: "\<not> is_html k"
  shows "map_of (assets s) k = map_of as k"
proof -
  let ?s0 = "replace_assets ds as"
  have inv: "engine_inv ?s0 s" using r d by (rule reachable_inv)
  have l2: "list_all2 task_inv (tasks ?s0) (tasks s)" by (rule engine_invD(1) [OF inv])
  have "\<forall>j < length (tasks s). committed (stage (tasks s ! j)) \<longrightarrow> tkey (tasks s ! j) \<noteq> k"
  proof (intro allI impI)
    fix j
    assume j: "j < length (tasks s)"
    have "tkey (tasks s ! j) = tkey (tasks ?s0 ! j)"
      using task_inv_nth [OF l2 j] by (simp add: task_inv_def)
    moreover have "tasks ?s0 ! j \<in> set (tasks ?s0)" using j list_all2_lengthD [OF l2] by simp
    ultimately show "tkey (tasks s ! j) \<noteq> k" using initial_keys k by metis
  qed
  with engine_invD(4) [OF inv] show ?thesis by simp
qed

theorem ineligible_untouched_witness:
  "map_of (assets (drain (replace_assets remote_source demo_site))) ''main.js'' = Some (mk_asset ''x'')"
proof -
  have d: "distinct (map fst demo_site)" by (simp add: demo_site_def)
  have "\<not> is_html ''main.js''" by code_simp
  from ineligible_untouched [OF drain_reachable [OF d] d this] show ?thesis by (simp add: demo_site_def)
qed

text \<open>C22: The keys of the asset object and their order are the same in every state
  of a run: assets are replaced in place, never added or removed.\<close>

theorem keys_preserved:
  assumes "reachable ds as s" and "distinct (map fst as)"
  shows "map fst (assets s) = map fst as"
  using engine_invD(2) [OF reachable_inv [OF assms]] by simp

theorem keys_preserved_witness:
  "map fst (assets (drain (replace_assets remote_source demo_site))) = [''index.html'', ''main.js'']"
proof -
  have d: "distinct (map fst demo_site)" by (simp add: demo_site_def)
  from keys_preserved [OF drain_reachable [OF d] d] show ?thesis by (simp add: demo_site_def)
qed

text \<open>C23: The cache only ever holds a value that the data source returned for that
  name.\<close>

theorem cache_sound:
  assumes r: "reachable ds as s" and d: "distinct (map fst as)" and c: "cache s n = Some v"
  shows "ds n = Resolved v"
proof -
  have inv: "engine_inv (replace_assets ds as) s" using r d by (rule reachable_inv)
  obtain t e where o: "object_proto n = None" and t: "t \<in> set (tasks (replace_assets ds as))"
    and e: "e \<in> set (tags t)" "tname e = n" "tdata e = Resolved v"
    using engine_invD(7) [OF inv c] by blast
  obtain a where "tags t = fresh_tags ds a" using t by (rule initial_task_entry)
  with e o show ?thesis by (auto simp: fresh_tags_def initial_data_def)
qed

theorem cache_sound_witness:
  "remote_source ''header'' = Resolved (Str ''<div>THIS IS HEADER</div>'')"
proof -
  have d: "distinct (map fst demo_site)" by (simp add: demo_site_def)
  have c: "cache (drain (replace_assets remote_source demo_site)) ''header'' = Some (Str ''<div>THIS IS HEADER</div>'')"
    by (simp add: demo_site_def demo_page_def) code_simp
  from cache_sound [OF drain_reachable [OF d] d c] show ?thesis .
qed

section \<open>The examples of the specification\<close>

text \<open>C25: A marker whose name \<open>RemoteData\<close> does not know (not \<open>header\<close>, not
  \<open>footer\<close>, not a member of \<open>Object.prototype\<close>) is replaced by the text
  \<open>undefined\<close>: \<open>data[key]\<close> is \<open>undefined\<close> and \<open>replace\<close> converts it with
  \<open>ToString\<close>; an asset with one such marker is shipped with the text in the
  marker's place and no error.\<close>

theorem unknown_name_undefined:
  assumes d: "distinct (map fst as)" and a: "map_of as k = Some a" and h: "is_html k"
    and p: "pieces (source a) = map Lit b @ Mark n # map Lit c"
    and o: "object_proto n = None" and u: "data_table n = None"
  shows "map_of (assets (drain (replace_assets remote_source as))) k = Some (mk_asset (b @ ''undefined'' @ c))"
proof -
  have v: "initial_data remote_source n = Resolved Undefined"
    using o u by (simp add: initial_data_def remote_source_def remote_data_def object_get_def)
  have f: "\<not> occurs_before (marker_tag n) (b @ marker_tag n @ c) (length b)"
    using single_marker_first [OF p] by blast
  have "js_replace (b @ marker_tag n @ c) (marker_tag n) Undefined = Inr (b @ ''undefined'' @ c)"
    using js_replace_first [OF refl f] by (simp add: get_subst_no_dollar)
  then have "injected remote_source a = Some (mk_asset (b @ ''undefined'' @ c))"
    by (simp add: injected_single_data [OF p v])
  with drain_assets [OF d] a h show ?thesis by simp
qed

theorem unknown_name_undefined_witness:
  \<open>map_of (assets (drain (replace_assets remote_source [(''index.html'', mk_asset ''<p><!-- replace="nav" --></p>'')])))
     ''index.html'' = Some (mk_asset ''<p>undefined</p>'')\<close>
proof -
  have d: "distinct (map fst [(''index.html'', mk_asset ''<p><!-- replace=\"nav\" --></p>'')])" by simp
  have a: \<open>map_of [(''index.html'', mk_asset ''<p><!-- replace="nav" --></p>'')] ''index.html'' =
      Some (mk_asset ''<p><!-- replace="nav" --></p>'')\<close> by simp
  have h: "is_html ''index.html''" by code_simp
  have p: \<open>pieces (source (mk_asset ''<p><!-- replace="nav" --></p>'')) = map Lit ''<p>'' @ Mark ''nav'' # map Lit ''</p>''\<close>
    by (simp add: mk_asset_def) code_simp
  have o: "object_proto ''nav'' = None" by (simp add: object_proto.simps)
  have u: "data_table ''nav'' = None" by (simp add: data_table_def)
  from unknown_name_undefined [OF d a h p o u] show ?thesis by simp
qed

section \<open>Substitution in place\<close>

text \<open>C16: An HTML asset with exactly one marker, whose name is not a member of
  \<open>Object.prototype\<close> and which the data source resolves to a text with no
  \<open>$\<close>, ends the run with that marker replaced by
  the text in its place and every other code unit untouched (the general form
  of the specification's example P3).\<close>

theorem single_marker_in_place:
  assumes "distinct (map fst as)" and "map_of as k = Some a" and "is_html k"
    and "pieces (source a) = map Lit b @ Mark n # map Lit c"
    and "object_proto n = None" and "ds n = Resolved (Str v)" and "CHR ''$'' \<notin> set v"
  shows "map_of (assets (drain (replace_assets ds as))) k = Some (mk_asset (b @ v @ c))"
  using drain_assets [OF assms(1)] injected_single [where ds = ds, OF assms(4-7)] assms(2,3) by simp

theorem single_marker_in_place_witness:
  "map_of (assets (drain (replace_assets remote_source demo_site))) ''index.html'' =
     Some (mk_asset ''<p><div>THIS IS HEADER</div></p>'')"
proof -
  have d: "distinct (map fst demo_site)" and a: "map_of demo_site ''index.html'' = Some (mk_asset demo_page)"
    by (simp_all add: demo_site_def)
  have h: "is_html ''index.html''" by code_simp
  have p: "pieces (source (mk_asset demo_page)) = map Lit ''<p>'' @ Mark ''header'' # map Lit ''</p>''"
    by (simp add: mk_asset_def demo_page_def) code_simp
  have o: "object_proto ''header'' = None" by (simp add: object_proto.simps)
  have v: "remote_source ''header'' = Resolved (Str ''<div>THIS IS HEADER</div>'')"
    by (simp add: remote_source_def remote_data_def object_get_def data_table_def)
  have nd: "CHR ''$'' \<notin> set ''<div>THIS IS HEADER</div>''" by simp
  from single_marker_in_place [where ds = remote_source, OF d a h p o v nd] show ?thesis by simp
qed

text \<open>C24: Specification property P1: when no key of a non-empty asset object is
  an HTML file, \<open>replaceAssets\<close> resolves at once, launches no chain, fetches
  nothing and leaves the assets as they are; the run is over.\<close>

theorem no_html_immediate:
  assumes "as \<noteq> []" and "\<forall>(k, a) \<in> set as. \<not> is_html k"
  shows "resolved (replace_assets ds as) \<and> assets (replace_assets ds as) = as \<and>
         tasks (replace_assets ds as) = [] \<and> fetches (replace_assets ds as) = [] \<and>
         (\<nexists>u. chain_step (replace_assets ds as) u)"
proof -
  have "\<not> is_html (fst (last as))" using assms last_in_set [OF assms(1)] by (cases "last as") fastforce
  moreover have t: "tasks (replace_assets ds as) = []"
    using assms(2) by (auto simp: replace_assets_tasks filter_empty_conv)
  moreover have "fetches (replace_assets ds as) = []"
    using assms(2) by (auto simp: replace_assets_fetches)
  moreover have "\<nexists>u. chain_step (replace_assets ds as) u"
    using t by (auto elim: chain_step.cases)
  ultimately show ?thesis
    using assms(1) by (simp add: replace_assets_resolved)
qed

theorem no_html_immediate_witness:
  "resolved (replace_assets remote_source static_site) \<and> assets (replace_assets remote_source static_site) = static_site \<and>
   tasks (replace_assets remote_source static_site) = [] \<and> fetches (replace_assets remote_source static_site) = [] \<and>
   (\<nexists>u. chain_step (replace_assets remote_source static_site) u)"
proof -
  have ne: "static_site \<noteq> []" by (simp add: static_site_def)
  have h: "\<forall>(k, a) \<in> set static_site. \<not> is_html k" by (simp add: static_site_def) code_simp
  from no_html_immediate [OF ne h] show ?thesis .
qed

section \<open>Names inherited from Object.prototype\<close>

text \<open>C10: A marker whose name is one of the members of \<open>Object.prototype\<close>
  that \<open>replace\<close> can call without throwing is never fetched, whatever the data
  source: \<open>cache[name]\<close> finds the inherited member.  \<open>replace\<close> then calls
  the inherited function, or converts \<open>Object.prototype\<close>: in an asset with one
  such marker, \<open>constructor\<close> writes the marker back, \<open>toString\<close> inserts
  \<open>[object Undefined]\<close>, \<open>__proto__\<close> inserts \<open>[object Object]\<close> and
  \<open>isPrototypeOf\<close> inserts \<open>false\<close>.\<close>

theorem inherited_members_text:
  assumes d: "distinct (map fst as)" and a: "map_of as k = Some a" and h: "is_html k"
    and p: "pieces (source a) = map Lit b @ Mark n # map Lit c"
    and nt: "(n, t) \<in> set [(''constructor'', marker_tag ''constructor''), (''toString'', ''[object Undefined]''),
                        (''__proto__'', ''[object Object]''), (''isPrototypeOf'', ''false'')]"
  shows "map_of (assets (drain (replace_assets ds as))) k = Some (mk_asset (b @ t @ c)) \<and>
    n \<notin> set (fetches (drain (replace_assets ds as)))"
proof -
  have f: "\<not> occurs_before (marker_tag n) (b @ marker_tag n @ c) (length b)"
    using single_marker_first [OF p] by blast
  obtain w where o: "object_proto n = Some w"
    and r: "js_replace (b @ marker_tag n @ c) (marker_tag n) w = Inr (b @ t @ c)"
  proof -
    from nt consider "n = ''constructor''" "t = marker_tag ''constructor''" | "n = ''toString''" "t = ''[object Undefined]''"
      | "n = ''__proto__''" "t = ''[object Object]''" | "n = ''isPrototypeOf''" "t = ''false''" by auto
    then show thesis
    proof cases
      case 1 with js_replace_call [OF refl f, of ObjectCtor] that show thesis by (simp add: object_proto.simps)
    next
      case 2 with js_replace_call [OF refl f, of ObjToString] that show thesis by (simp add: object_proto.simps)
    next
      case 3 with js_replace_first [OF refl f, of ObjectPrototype] that show thesis
        by (simp add: object_proto.simps get_subst_no_dollar)
    next
      case 4 with js_replace_call [OF refl f, of ObjIsPrototypeOf] that show thesis by (simp add: object_proto.simps)
    qed
  qed
  have "initial_data ds n = Resolved w" using o by (simp add: initial_data_def)
  then have "injected ds a = Some (mk_asset (b @ t @ c))"
    using r by (simp add: injected_single_data [OF p])
  with drain_assets [OF d] a h have 1: "map_of (assets (drain (replace_assets ds as))) k = Some (mk_asset (b @ t @ c))"
    by simp
  have "fetches (drain (replace_assets ds as)) = fetches (replace_assets ds as)"
    using engine_invD(6) [OF reachable_inv [OF drain_reachable [OF d] d]] .
  moreover have "\<forall>m \<in> set (fetches (replace_assets ds as)). object_proto m = None"
    by (auto simp: replace_assets_fetches split: if_splits)
  ultimately have "n \<notin> set (fetches (drain (replace_assets ds as)))" using o by auto
  with 1 show ?thesis by blast
qed

theorem inherited_members_text_witness:
  \<open>map_of (assets (drain (replace_assets remote_source [(''index.html'', mk_asset ''<p><!-- replace="toString" --></p>'')])))
     ''index.html'' = Some (mk_asset ''<p>[object Undefined]</p>'') \<and>
   ''toString'' \<notin> set (fetches (drain (replace_assets remote_source [(''index.html'', mk_asset ''<p><!-- replace="toString" --></p>'')])))\<close>
proof -
  have d: "distinct (map fst [(''index.html'', mk_asset ''<p><!-- replace=\"toString\" --></p>'')])" by simp
  have a: \<open>map_of [(''index.html'', mk_asset ''<p><!-- replace="toString" --></p>'')] ''index.html'' =
      Some (mk_asset ''<p><!-- replace="toString" --></p>'')\<close> by simp
  have h: "is_html ''index.html''" by code_simp
  have p: \<open>pieces (source (mk_asset ''<p><!-- replace="toString" --></p>'')) =
      map Lit ''<p>'' @ Mark ''toString'' # map Lit ''</p>''\<close>
    by (simp add: mk_asset_def) code_simp
  have nt: "(''toString'', ''[object Undefined]'') \<in> set [(''constructor'', marker_tag ''constructor''),
      (''toString'', ''[object Undefined]''), (''__proto__'', ''[object Object]''), (''isPrototypeOf'', ''false'')]"
    by simp
  from inherited_members_text [OF d a h p nt] show ?thesis by simp
qed

text \<open>C11: When the first marker of an HTML asset names one of the eight inherited
  members that throw when called with an undefined receiver (such as
  \<open>hasOwnProperty\<close>),
  \<open>replace\<close> throws inside the first \<open>then\<close>: the asset keeps its original
  content in every state of the run, and if it is the last key the promise is
  never resolved.\<close>

theorem inherited_member_throws:
  assumes r: "reachable ds as s" and d: "distinct (map fst as)" and a: "map_of as k = Some a"
    and h: "is_html k" and p: "pieces (source a) = map Lit b @ Mark n # ps"
    and n: "n \<in> set [''toLocaleString'', ''valueOf'', ''hasOwnProperty'', ''propertyIsEnumerable'',
                      ''__defineGetter__'', ''__defineSetter__'', ''__lookupGetter__'', ''__lookupSetter__'']"
  shows "map_of (assets s) k = Some a \<and> (k = fst (last as) \<longrightarrow> \<not> resolved s)"
proof -
  obtain f where o: "object_proto n = Some (Builtin f)" and t: "call_replacer f (marker_tag n) = Inl TypeError"
    using n by (auto simp: object_proto.simps)
  have inj: "injected ds a = None" using p o t by (rule injected_first_throws)
  have "k \<in> set (map fst (assets s))"
    using engine_invD(2) [OF reachable_inv [OF r d]] a by (force dest: map_of_SomeD)
  then have "map_of (assets s) k \<noteq> None" by (simp add: map_of_eq_None_iff)
  then have "map_of (assets s) k = Some a" using reachable_asset_entry [OF r d a] inj by auto
  moreover have "\<not> resolved s" if k: "k = fst (last as)"
  proof
    assume res: "resolved s"
    have "(k, a) \<in> set as" using a by (rule map_of_SomeD)
    then have "snd (last as) = a"
      using k d last_in_set [of as] distinct_key_value [OF d] by (metis prod.collapse empty_iff list.set(1))
    with reachable_resolved [OF r d res] inj h k show False by simp
  qed
  ultimately show ?thesis by blast
qed

theorem inherited_member_throws_witness:
  "map_of (assets (drain (replace_assets remote_source throw_site))) ''index.html'' = Some (snd (hd throw_site)) \<and>
   \<not> resolved (drain (replace_assets remote_source throw_site))"
proof -
  have d: "distinct (map fst throw_site)" by (simp add: throw_site_def)
  have a: "map_of throw_site ''index.html'' = Some (snd (hd throw_site))" by (simp add: throw_site_def)
  have h: "is_html ''index.html''" by code_simp
  have p: \<open>pieces (source (snd (hd throw_site))) =
      map Lit ''<h1>'' @ Mark ''hasOwnProperty'' # pieces ''</h1><!-- replace="header" -->''\<close>
    by (simp add: throw_site_def mk_asset_def) code_simp
  have n: "''hasOwnProperty'' \<in> set [''toLocaleString'', ''valueOf'', ''hasOwnProperty'', ''propertyIsEnumerable'',
      ''__defineGetter__'', ''__defineSetter__'', ''__lookupGetter__'', ''__lookupSetter__'']" by simp
  from inherited_member_throws [OF drain_reachable [OF d] d a h p n] show ?thesis
    by (simp add: throw_site_def)
qed

theorem loop_run_bound_witness:
  "(loop_step ^^ 1) (init_loop remote_source (\<lambda>_. False) demo_pages)
      (the (loop_next (init_loop remote_source (\<lambda>_. False) demo_pages))) \<and>
   1 + loop_measure (the (loop_next (init_loop remote_source (\<lambda>_. False) demo_pages)))
     \<le> loop_measure (init_loop remote_source (\<lambda>_. False) demo_pages)"
proof -
  let ?L = "init_loop remote_source (\<lambda>_. False) demo_pages"
  have "queue ?L = [Elem 0 0, Cont 1]" by (simp add: demo_pages_def) code_simp
  then have "loop_next ?L \<noteq> None" by (simp add: loop_next_def)
  then have "loop_step ?L (the (loop_next ?L))" by (auto intro: loop_step.micro)
  then have s: "(loop_step ^^ 1) ?L (the (loop_next ?L))" by (simp only: relpowp_1)
  from s loop_run_bound [OF s] show ?thesis by simp
qed

theorem remote_completion_waits_witness:
  "distinct (map fst demo_pages) \<and> is_html (fst (last demo_pages)) \<and>
   loop_reachable remote_source (\<lambda>_. False) demo_pages (run_loop (init_loop remote_source (\<lambda>_. False) demo_pages)) \<and>
   resolved (eng (run_loop (init_loop remote_source (\<lambda>_. False) demo_pages))) \<and>
   (committed (stage (tasks (eng (run_loop (init_loop remote_source (\<lambda>_. False) demo_pages))) ! 0)) \<or>
    stage (tasks (eng (run_loop (init_loop remote_source (\<lambda>_. False) demo_pages))) ! 0) = Failed) \<and>
   (committed (stage (tasks (eng (run_loop (init_loop remote_source (\<lambda>_. False) demo_pages))) ! 1)) \<or>
    stage (tasks (eng (run_loop (init_loop remote_source (\<lambda>_. False) demo_pages))) ! 1) = Failed)"
proof -
  let ?L = "run_loop (init_loop remote_source (\<lambda>_. False) demo_pages)"
  have d: "distinct (map fst demo_pages)" by (simp add: demo_pages_def)
  have h: "is_html (fst (last demo_pages))" by (simp add: demo_pages_def) code_simp
  have r: "loop_reachable remote_source (\<lambda>_. False) demo_pages ?L"
    using run_loop_steps by (simp add: loop_reachable_def)
  have res: "resolved (eng ?L)" by (simp add: demo_pages_def) code_simp
  have len: "length (tasks (eng ?L)) = 2" by (simp add: demo_pages_def) code_simp
  from remote_completion_waits [OF d h r res] len d h r res show ?thesis by simp
qed

theorem fifo_schedule_agrees_witness:
  "distinct (map fst demo_pages) \<and>
   final (eng (run_loop (init_loop remote_source (\<lambda>_. False) demo_pages))) \<and>
   assets (eng (run_loop (init_loop remote_source (\<lambda>_. False) demo_pages))) =
     assets (drain (replace_assets remote_source demo_pages)) \<and>
   resolved (eng (run_loop (init_loop remote_source (\<lambda>_. False) demo_pages))) =
     resolved (drain (replace_assets remote_source demo_pages))"
proof -
  have d: "distinct (map fst demo_pages)" by (simp add: demo_pages_def)
  with fifo_schedule_agrees [OF d] show ?thesis by blast
qed

end
